theory Spec2Isabelle
  imports Main "HOL-Library.AList"
begin

section \<open>Strings\<close>

text \<open>
  Python \<open>str\<close> values are modelled as \<^typ>\<open>string\<close>. The functions below are the
  \<open>str\<close> methods that \<open>main.py\<close> calls, with Python's results.
\<close>

text \<open>\<open>s.startswith(p)\<close>\<close>

definition startswith :: "string \<Rightarrow> string \<Rightarrow> bool" where
  "startswith s p = (take (length p) s = p)"

text \<open>\<open>s.endswith(p)\<close>\<close>

definition endswith :: "string \<Rightarrow> string \<Rightarrow> bool" where
  "endswith s p = (length p \<le> length s \<and> drop (length s - length p) s = p)"

text \<open>\<open>p in s\<close> for two strings: \<open>p\<close> occurs in \<open>s\<close> as a contiguous substring.\<close>

fun contains :: "string \<Rightarrow> string \<Rightarrow> bool" where
  "contains [] p = (p = [])"
| "contains (x # xs) p = (startswith (x # xs) p \<or> contains xs p)"

text \<open>
  \<open>s.split(c)\<close> for a one-character separator: the pieces between the separators, empty
  pieces included; never the empty list (\<open>"".split("/") == [""]\<close>).
\<close>

fun split_on :: "char \<Rightarrow> string \<Rightarrow> string list" where
  "split_on c [] = [[]]"
| "split_on c (x # xs) =
     (if x = c then [] # split_on c xs
      else (case split_on c xs of [] \<Rightarrow> [[x]] | p # ps \<Rightarrow> (x # p) # ps))"

text \<open>\<open>sep.join(parts)\<close>\<close>

fun join :: "string \<Rightarrow> string list \<Rightarrow> string" where
  "join sep [] = []"
| "join sep [p] = p"
| "join sep (p # q # ps) = p @ sep @ join sep (q # ps)"

text \<open>\<open>s.rstrip(c)\<close> for a one-character set.\<close>

definition rstrip :: "char \<Rightarrow> string \<Rightarrow> string" where
  "rstrip c s = rev (dropWhile (\<lambda>x. x = c) (rev s))"

section \<open>\<open>os.path\<close> on POSIX\<close>

text \<open>
  \<open>clean_links\<close> resolves a link with \<open>os.path.dirname\<close> and \<open>os.path.abspath\<close>. Both are
  purely textual (\<open>posixpath.py\<close>); the only input from the environment is the working
  directory returned by \<open>os.getcwd()\<close>, which the model takes as the parameter \<open>cwd\<close>.
\<close>

text \<open>
  \<open>dirname(p)\<close>: the text up to and including the last slash, then without its trailing
  slashes unless it consists of slashes only.
\<close>

definition dirname :: "string \<Rightarrow> string" where
  "dirname p =
     (let head = rev (dropWhile (\<lambda>x. x \<noteq> CHR ''/'') (rev p))
      in if head \<noteq> [] \<and> head \<noteq> replicate (length head) CHR ''/''
         then rstrip CHR ''/'' head else head)"

text \<open>\<open>basename(p)\<close>: the text after the last slash.\<close>

definition basename :: "string \<Rightarrow> string" where
  "basename p = rev (takeWhile (\<lambda>x. x \<noteq> CHR ''/'') (rev p))"

text \<open>
  One round of the loop of \<open>normpath\<close> over the components: empty and \<open>.\<close> components are
  skipped, \<open>..\<close> removes the component before it when there is one to remove.
\<close>

definition normpath_step :: "nat \<Rightarrow> string \<Rightarrow> string list \<Rightarrow> string list" where
  "normpath_step initial_slashes component new_comps =
     (if component = [] \<or> component = ''.'' then new_comps
      else if component \<noteq> ''..'' \<or> (initial_slashes = 0 \<and> new_comps = [])
              \<or> (new_comps \<noteq> [] \<and> last new_comps = ''..'')
      then new_comps @ [component]
      else if new_comps \<noteq> [] then butlast new_comps
      else new_comps)"

definition normpath :: "string \<Rightarrow> string" where
  "normpath path =
     (if path = [] then ''.''
      else
        let initial_slashes =
              (if startswith path ''/''
               then (if startswith path ''//'' \<and> \<not> startswith path ''///'' then 2 else 1)
               else (0::nat));
            comps = split_on CHR ''/'' path;
            new_comps = fold (normpath_step initial_slashes) comps [];
            path' = replicate initial_slashes CHR ''/'' @ join ''/'' new_comps
        in if path' = [] then ''.'' else path')"

text \<open>\<open>posixpath.join(a, b)\<close> for two arguments.\<close>

definition path_join :: "string \<Rightarrow> string \<Rightarrow> string" where
  "path_join a b =
     (if startswith b ''/'' then b
      else if a = [] \<or> endswith a ''/'' then a @ b
      else a @ ''/'' @ b)"

definition abspath :: "string \<Rightarrow> string \<Rightarrow> string" where
  "abspath cwd path =
     normpath (if startswith path ''/'' then path else path_join cwd path)"

section \<open>Parsed documents\<close>

text \<open>
  A BeautifulSoup tree. A \<open>Tag\<close> is a Python object: the code keeps references to tags
  (the result of \<open>find\<close> and \<open>find_all\<close>) and mutates the tree through them, so every tag
  carries its object identity \<open>ident\<close>. The attributes are the tag's \<open>attrs\<close> dictionary in
  insertion order. The value of \<open>class\<close> is kept as the attribute text; BeautifulSoup
  splits it at whitespace (see \<open>has_class\<close>).
\<close>

datatype node =
    NavigableString string
  | Tag (ident: nat) (tag_name: string) (attrs: "(string \<times> string) list") (contents: "node list")

text \<open>The identities of the tags of a tree, in document order.\<close>

fun tag_ids :: "node \<Rightarrow> nat list" where
  "tag_ids (NavigableString s) = []"
| "tag_ids (Tag i n as cs) = i # concat (map tag_ids cs)"

definition forest_ids :: "node list \<Rightarrow> nat list" where
  "forest_ids ns = concat (map tag_ids ns)"

text \<open>
  \<open>find_all\<close>: the matching tags in document order. \<open>find_all_in\<close> tests the node itself and
  its descendants; \<open>tag.find_all(...)\<close> searches the descendants only, which is
  \<open>find_all_desc\<close> on the tag's contents.
\<close>

fun find_all_in :: "(node \<Rightarrow> bool) \<Rightarrow> node \<Rightarrow> node list" where
  "find_all_in P (NavigableString s) = []"
| "find_all_in P (Tag i n as cs) =
     (if P (Tag i n as cs) then [Tag i n as cs] else []) @ concat (map (find_all_in P) cs)"

definition find_all_desc :: "(node \<Rightarrow> bool) \<Rightarrow> node list \<Rightarrow> node list" where
  "find_all_desc P ns = concat (map (find_all_in P) ns)"

text \<open>
  A mutation through a reference: the tag with identity \<open>i\<close> is replaced, where it stands
  among its siblings, by the nodes \<open>f\<close> makes of it. \<open>f t = [t']\<close> is an update in place,
  \<open>f t = []\<close> is \<open>extract()\<close>, \<open>f t = contents t\<close> is \<open>replaceWithChildren()\<close>.
\<close>

fun modify :: "nat \<Rightarrow> (node \<Rightarrow> node list) \<Rightarrow> node \<Rightarrow> node list" where
  "modify i f (NavigableString s) = [NavigableString s]"
| "modify i f (Tag j n as cs) =
     (if j = i then f (Tag j n as cs) else [Tag j n as (concat (map (modify i f) cs))])"

definition modify_forest :: "nat \<Rightarrow> (node \<Rightarrow> node list) \<Rightarrow> node list \<Rightarrow> node list" where
  "modify_forest i f ns = concat (map (modify i f) ns)"

text \<open>\<open>tag[k] = v\<close>\<close>

fun set_attr :: "string \<Rightarrow> string \<Rightarrow> node \<Rightarrow> node" where
  "set_attr k v (NavigableString s) = NavigableString s"
| "set_attr k v (Tag i n as cs) = Tag i n (AList.update k v as) cs"

text \<open>\<open>tag.get(k)\<close>\<close>

fun get_attr :: "string \<Rightarrow> node \<Rightarrow> string option" where
  "get_attr k (NavigableString s) = None"
| "get_attr k (Tag i n as cs) = map_of as k"

section \<open>\<open>clean_links\<close>\<close>

text \<open>
  \<open>re.compile("^../")\<close> searched in an attribute value: the dots are unescaped, so each
  stands for any character except a newline, and the third character is a slash.
\<close>

definition href_re_search :: "string \<Rightarrow> bool" where
  "href_re_search h =
     (case h of
        a # b # c # _ \<Rightarrow> a \<noteq> CHR 0x0A \<and> b \<noteq> CHR 0x0A \<and> c = CHR ''/''
      | _ \<Rightarrow> False)"

text \<open>The filter of \<open>body.find_all(["a", "area"], href=re.compile("^../"))\<close>.\<close>

definition link_filter :: "node \<Rightarrow> bool" where
  "link_filter t =
     (case t of
        NavigableString s \<Rightarrow> False
      | Tag i n as cs \<Rightarrow>
          (n = ''a'' \<or> n = ''area'') \<and>
          (case map_of as ''href'' of None \<Rightarrow> False | Some h \<Rightarrow> href_re_search h))"

text \<open>
  The test \<open>"PySide2" in os.path.abspath("%s/%s" % (os.path.dirname(current_url), href))\<close>.
\<close>

definition resolved :: "string \<Rightarrow> string \<Rightarrow> string \<Rightarrow> string" where
  "resolved cwd current_url href = abspath cwd (dirname current_url @ ''/'' @ href)"

definition in_documentation :: "string \<Rightarrow> string \<Rightarrow> string \<Rightarrow> bool" where
  "in_documentation cwd current_url href = contains (resolved cwd current_url href) ''PySide2''"

text \<open>
  The specification's condition, for comparison with the test of the script: the target
  lies inside the documentation when its resolved path is the directory \<open>PySide2\<close> of the
  site, resolved in the same way, or a path below that directory. This definition follows
  the specification, not \<open>main.py\<close>.
\<close>

definition documentation_root :: "string \<Rightarrow> string" where
  "documentation_root cwd = abspath cwd ''https://doc-snapshots.qt.io/qtforpython/PySide2''"

definition spec_inside_documentation :: "string \<Rightarrow> string \<Rightarrow> string \<Rightarrow> bool" where
  "spec_inside_documentation cwd current_url href =
     (resolved cwd current_url href = documentation_root cwd
      \<or> startswith (resolved cwd current_url href) (documentation_root cwd @ ''/''))"

text \<open>
  The body of the loop, on the tag it is run for. The loop only sees tags selected by
  \<open>link_filter\<close>, which all carry an \<open>href\<close>; a tag without one is never passed in and is
  returned as it is.
\<close>

definition clean_tag :: "string \<Rightarrow> string \<Rightarrow> node \<Rightarrow> node list" where
  "clean_tag cwd current_url t =
     (case get_attr ''href'' t of
        None \<Rightarrow> [t]
      | Some h \<Rightarrow>
          if in_documentation cwd current_url h
          then [set_attr ''href'' (last (split_on CHR ''/'' h)) t]
          else contents t)"

text \<open>
  One round of the loop of \<open>clean_links\<close>: the tag the loop variable refers to is
  mutated where it stands in the tree.
\<close>

definition clean_links_step :: "string \<Rightarrow> string \<Rightarrow> node \<Rightarrow> node list \<Rightarrow> node list" where
  "clean_links_step cwd current_url tag ns =
     modify_forest (ident tag) (clean_tag cwd current_url) ns"

text \<open>
  \<open>clean_links(body, current_url)\<close>: the result set of \<open>find_all\<close> is computed first, then
  the loop mutates the tree below \<open>body\<close> through each tag of the result set in turn.
  The function returns the contents of \<open>body\<close> after the loop.
\<close>

definition clean_links :: "string \<Rightarrow> node \<Rightarrow> string \<Rightarrow> node list" where
  "clean_links cwd body current_url =
     fold (clean_links_step cwd current_url)
       (find_all_desc link_filter (contents body)) (contents body)"

text \<open>
  The same rewriting as one pass over the tree, from the leaves up: what the loop makes of
  a single node. It is not part of the program; \<open>clean_links_eq\<close> below proves that the
  loop computes it whenever the tags of the tree are distinct objects.
\<close>

fun clean_node :: "string \<Rightarrow> string \<Rightarrow> node \<Rightarrow> node list" where
  "clean_node cwd url (NavigableString s) = [NavigableString s]"
| "clean_node cwd url (Tag i n as cs) =
     (if link_filter (Tag i n as cs)
      then clean_tag cwd url (Tag i n as (concat (map (clean_node cwd url) cs)))
      else [Tag i n as (concat (map (clean_node cwd url) cs))])"

definition clean_forest :: "string \<Rightarrow> string \<Rightarrow> node list \<Rightarrow> node list" where
  "clean_forest cwd url ns = concat (map (clean_node cwd url) ns)"

section \<open>The state of a run\<close>

text \<open>
  What the script reads and writes: the table \<open>searchIndex\<close> of the SQLite file (\<open>None\<close>
  while the table does not exist; a row is its \<open>id\<close> and the triple \<open>name\<close>, \<open>type\<close>,
  \<open>path\<close>), the files of \<open>DOC_PATH\<close> by file name, and the lines printed so far. A function
  of the script takes the state and returns its result, or the exception it raised, with
  the state it left behind.
\<close>

datatype exn = AttributeError | KeyError | IndexError | FileNotFoundError
  | OperationalError | URLError | ParserRejectedMarkup | IsADirectoryError
  | PermissionError | UnicodeEncodeError

type_synonym entry = "string \<times> string \<times> string"

record state =
  searchIndex :: "(nat \<times> entry) list option"
  files :: "string \<rightharpoonup> string"
  stdout :: "string list"

type_synonym 'a run = "state \<Rightarrow> (exn + 'a) \<times> state"

text \<open>
  \<open>init_database()\<close>: \<open>DROP TABLE IF EXISTS\<close>, then \<open>CREATE TABLE\<close> and the unique index on
  \<open>(name, type, path)\<close>, which lives and dies with the table.
\<close>

definition init_database :: "unit run" where
  "init_database s = (Inr (), s\<lparr>searchIndex := Some []\<rparr>)"

text \<open>
  \<open>INSERT OR IGNORE\<close>: a row whose triple is already in the table violates the unique
  index and is skipped without an error; otherwise the row is added, and the
  \<open>INTEGER PRIMARY KEY\<close> column gets the largest \<open>id\<close> of the table plus one.
\<close>

definition next_rowid :: "(nat \<times> entry) list \<Rightarrow> nat" where
  "next_rowid rows = fold max (map fst rows) 0 + 1"

definition insert_or_ignore :: "(nat \<times> entry) list \<Rightarrow> entry \<Rightarrow> (nat \<times> entry) list" where
  "insert_or_ignore rows e =
     (if e \<in> snd ` set rows then rows else rows @ [(next_rowid rows, e)])"

definition insert_entry :: "string \<Rightarrow> string \<Rightarrow> string \<Rightarrow> unit run" where
  "insert_entry name entry_type path s =
     (case searchIndex s of
        None \<Rightarrow> (Inl OperationalError, s)
      | Some rows \<Rightarrow>
          (Inr (), s\<lparr>searchIndex := Some (insert_or_ignore rows (name, entry_type, path))\<rparr>))"

text \<open>A sequence of calls of \<open>insert_entry\<close>, stopping at the first that raises.\<close>

fun insertions :: "entry list \<Rightarrow> unit run" where
  "insertions [] s = (Inr (), s)"
| "insertions ((name, entry_type, path) # es) s =
     (case insert_entry name entry_type path s of
        (Inl e, s') \<Rightarrow> (Inl e, s')
      | (Inr u, s') \<Rightarrow> insertions es s')"

text \<open>\<open>SELECT * FROM searchIndex WHERE (name, type, path) = e\<close>\<close>

definition rows_for :: "entry \<Rightarrow> state \<Rightarrow> (nat \<times> entry) list" where
  "rows_for e s = (case searchIndex s of None \<Rightarrow> [] | Some rows \<Rightarrow> filter (\<lambda>r. snd r = e) rows)"

section \<open>The serial form of a tree\<close>

text \<open>
  A tree read in document order, as the parser produced it and as \<open>str(body)\<close> writes it
  out again: a start tag, the contents, the end tag. Stating what \<open>clean_links\<close> does on
  this form says where in the page each tag and each piece of text stands. These
  definitions are not part of the program.
\<close>

datatype event = StartTag nat string "(string \<times> string) list"
  | EndTag nat string "(string \<times> string) list"
  | Data string

fun events :: "node \<Rightarrow> event list" where
  "events (NavigableString s) = [Data s]"
| "events (Tag i n as cs) = StartTag i n as # concat (map events cs) @ [EndTag i n as]"

definition events_forest :: "node list \<Rightarrow> event list" where
  "events_forest ns = concat (map events ns)"

text \<open>
  What \<open>clean_links\<close> does to a tag of name \<open>n\<close> with attributes \<open>as\<close>: \<open>Some as'\<close> when
  the tag stays, with the attributes \<open>as'\<close>; \<open>None\<close> when the tag is unwrapped.
\<close>

definition link_action :: "string \<Rightarrow> string \<Rightarrow> string \<Rightarrow> (string \<times> string) list
    \<Rightarrow> (string \<times> string) list option" where
  "link_action cwd url n as =
     (case map_of as ''href'' of
        None \<Rightarrow> Some as
      | Some h \<Rightarrow>
          if (n = ''a'' \<or> n = ''area'') \<and> href_re_search h
          then (if in_documentation cwd url h
                then Some (AList.update ''href'' (last (split_on CHR ''/'' h)) as)
                else None)
          else Some as)"

fun clean_event :: "string \<Rightarrow> string \<Rightarrow> event \<Rightarrow> event list" where
  "clean_event cwd url (StartTag i n as) =
     (case link_action cwd url n as of None \<Rightarrow> [] | Some as' \<Rightarrow> [StartTag i n as'])"
| "clean_event cwd url (EndTag i n as) =
     (case link_action cwd url n as of None \<Rightarrow> [] | Some as' \<Rightarrow> [EndTag i n as'])"
| "clean_event cwd url (Data s) = [Data s]"

definition clean_events :: "string \<Rightarrow> string \<Rightarrow> event list \<Rightarrow> event list" where
  "clean_events cwd url es = concat (map (clean_event cwd url) es)"

text \<open>The identities of the start tags, and the pieces of text, in document order.\<close>

fun start_ids :: "event list \<Rightarrow> nat list" where
  "start_ids [] = []"
| "start_ids (StartTag i n as # es) = i # start_ids es"
| "start_ids (e # es) = start_ids es"

fun data_of :: "event list \<Rightarrow> string list" where
  "data_of [] = []"
| "data_of (Data s # es) = s # data_of es"
| "data_of (e # es) = data_of es"

section \<open>The environment of a run\<close>

text \<open>
  What the script takes from outside: the working directory; the remote site, as the
  outcome of \<open>urllib.request.urlopen(url).read()\<close> for each URL (the content, an
  \<open>HTTPError\<close> with its status, or any other failure of the transport, which raises
  \<open>URLError\<close> or the like); three library functions the model does not look into:
  \<open>BeautifulSoup(markup, "html.parser")\<close>, which is \<open>None\<close> for markup the parser rejects
  (the constructor then raises \<open>ParserRejectedMarkup\<close>), \<open>str(tag)\<close>, and the search of a
  compiled regular expression in a string; and what the file system and the encoding of
  text files answer: which names of \<open>DOC_PATH\<close> are directories, the exception that
  \<open>open\<close> raises for a name that is not one (\<open>FileNotFoundError\<close> for a name in a
  directory that does not exist, \<open>PermissionError\<close>, and so on), and whether a text can
  be encoded.
\<close>

datatype response = Response string | HTTPError nat | OtherError

record env =
  getcwd :: string
  urlopen :: "string \<Rightarrow> response"
  parse :: "string \<Rightarrow> node option"
  render :: "node \<Rightarrow> string"
  re_search :: "string \<Rightarrow> string \<Rightarrow> bool"
  isdir :: "string \<Rightarrow> bool"
  open_w :: "string \<Rightarrow> exn option"
  encodes :: "string \<Rightarrow> bool"

section \<open>Sequencing\<close>

definition ret :: "'a \<Rightarrow> 'a run" where
  "ret x s = (Inr x, s)"

definition raise :: "exn \<Rightarrow> 'a run" where
  "raise e s = (Inl e, s)"

definition bind_run :: "'a run \<Rightarrow> ('a \<Rightarrow> 'b run) \<Rightarrow> 'b run" where
  "bind_run m f s = (case m s of (Inl e, s') \<Rightarrow> (Inl e, s') | (Inr x, s') \<Rightarrow> f x s')"

text \<open>A \<open>for\<close> loop over a list, with the local variables the body updates.\<close>

fun for_each :: "('a \<Rightarrow> 'b \<Rightarrow> 'b run) \<Rightarrow> 'a list \<Rightarrow> 'b \<Rightarrow> 'b run" where
  "for_each f [] acc = ret acc"
| "for_each f (x # xs) acc = bind_run (f x acc) (for_each f xs)"

text \<open>
  A value that is \<open>None\<close> where the script goes on to use it: the use raises. Likewise the
  index \<open>[0]\<close> into a list, which raises on the empty list.
\<close>

definition or_raise :: "'a option \<Rightarrow> exn \<Rightarrow> 'a run" where
  "or_raise x e = (case x of None \<Rightarrow> raise e | Some v \<Rightarrow> ret v)"

definition first_or_raise :: "'a list \<Rightarrow> exn \<Rightarrow> 'a run" where
  "first_or_raise xs e = (case xs of [] \<Rightarrow> raise e | x # _ \<Rightarrow> ret x)"

text \<open>\<open>print(line)\<close>\<close>

definition print :: "string \<Rightarrow> unit run" where
  "print line s = (Inr (), s\<lparr>stdout := stdout s @ [line]\<rparr>)"

text \<open>
  \<open>os.path.exists\<close> in \<open>DOC_PATH\<close>: a file or a directory of that name is there.
\<close>

definition path_exists :: "env \<Rightarrow> string \<Rightarrow> bool run" where
  "path_exists env file_name s = (Inr (file_name \<in> dom (files s) \<or> isdir env file_name), s)"

text \<open>
  \<open>open(..., "r").read()\<close> in \<open>DOC_PATH\<close>. A file is kept as the text that reading it
  gives, so decoding is not modelled.
\<close>

definition read_file :: "env \<Rightarrow> string \<Rightarrow> string run" where
  "read_file env file_name s =
     (if isdir env file_name then (Inl IsADirectoryError, s)
      else case files s file_name of
             None \<Rightarrow> (Inl FileNotFoundError, s)
           | Some content \<Rightarrow> (Inr content, s))"

text \<open>The exception that \<open>open(..., "w")\<close> and \<open>open(..., "wb")\<close> raise, if any.\<close>

definition open_error :: "env \<Rightarrow> string \<Rightarrow> exn option" where
  "open_error env file_name =
     (if isdir env file_name then Some IsADirectoryError else open_w env file_name)"

text \<open>
  \<open>with open(..., "wb") as file: file.write(content)\<close>: when \<open>open\<close> raises, the files are
  as they were. The same serves for the text that \<open>download_css\<close> writes back to
  \<open>main.css\<close>: it is what was read from that file and an ASCII rule, and what has been
  decoded from a file can be encoded again.
\<close>

definition write_file :: "env \<Rightarrow> string \<Rightarrow> string \<Rightarrow> unit run" where
  "write_file env file_name content s =
     (case open_error env file_name of
        Some e \<Rightarrow> (Inl e, s)
      | None \<Rightarrow> (Inr (), s\<lparr>files := (files s)(file_name \<mapsto> content)\<rparr>))"

text \<open>
  \<open>with open(..., "w") as file: file.write(text)\<close>, for a text made from a parsed page:
  \<open>open\<close> empties the file, and \<open>file.write\<close> raises \<open>UnicodeEncodeError\<close> on a text
  with a character the encoding cannot hold, which leaves the file empty.
\<close>

definition write_text :: "env \<Rightarrow> string \<Rightarrow> string \<Rightarrow> unit run" where
  "write_text env file_name content s =
     (case open_error env file_name of
        Some e \<Rightarrow> (Inl e, s)
      | None \<Rightarrow>
          if encodes env content
          then (Inr (), s\<lparr>files := (files s)(file_name \<mapsto> content)\<rparr>)
          else (Inl UnicodeEncodeError, s\<lparr>files := (files s)(file_name \<mapsto> [])\<rparr>))"

section \<open>More of Python and BeautifulSoup\<close>

text \<open>\<open>str(x)\<close> and \<open>"%s" % x\<close> for a value that is a string or \<open>None\<close>.\<close>

definition py_str :: "string option \<Rightarrow> string" where
  "py_str x = (case x of None \<Rightarrow> ''None'' | Some s \<Rightarrow> s)"

text \<open>\<open>"%d" % n\<close>\<close>

fun decimal :: "nat \<Rightarrow> string" where
  "decimal n =
     (if n < 10 then [char_of (48 + n)]
      else decimal (n div 10) @ [char_of (48 + n mod 10)])"

text \<open>
  \<open>s.replace(old, new)\<close>: every occurrence of \<open>old\<close>, from the left, without overlaps. With
  an empty \<open>old\<close>, \<open>new\<close> goes before every character and at the end.
\<close>

function replace :: "string \<Rightarrow> string \<Rightarrow> string \<Rightarrow> string" where
  "replace old new s =
     (if old = [] then concat (map (\<lambda>c. new @ [c]) s) @ new
      else if s = [] then []
      else if startswith s old then new @ replace old new (drop (length old) s)
      else hd s # replace old new (tl s))"
  by pat_completeness auto
termination
  by (relation "measure (\<lambda>(old, new, s). length s)") auto

text \<open>
  The words of an attribute value, as BeautifulSoup splits the value of \<open>class\<close>:
  the maximal runs of characters that are not whitespace.
\<close>

definition is_space :: "char \<Rightarrow> bool" where
  "is_space c = (c \<in> {CHR '' '', CHR 0x09, CHR 0x0A, CHR 0x0B, CHR 0x0C, CHR 0x0D})"

fun words_from :: "string \<Rightarrow> string \<Rightarrow> string list" where
  "words_from w [] = (if w = [] then [] else [rev w])"
| "words_from w (x # xs) =
     (if is_space x then (if w = [] then words_from [] xs else rev w # words_from [] xs)
      else words_from (x # w) xs)"

definition class_values :: "string \<Rightarrow> string list" where
  "class_values v = words_from [] v"

text \<open>
  \<open>class_=c\<close> in a search: one of the classes of the tag is \<open>c\<close>, or all of them joined by
  single spaces are \<open>c\<close>.
\<close>

definition has_class :: "string \<Rightarrow> node \<Rightarrow> bool" where
  "has_class c t =
     (case get_attr ''class'' t of
        None \<Rightarrow> False
      | Some v \<Rightarrow> c \<in> set (class_values v) \<or> c = join '' '' (class_values v))"

text \<open>The name given in a search.\<close>

definition is_tag :: "string \<Rightarrow> node \<Rightarrow> bool" where
  "is_tag n t = (case t of NavigableString s \<Rightarrow> False | Tag i m as cs \<Rightarrow> m = n)"

text \<open>\<open>tag.string\<close>: the text of a tag whose only content, at every level, is one node.\<close>

fun tag_string :: "node \<Rightarrow> string option" where
  "tag_string (NavigableString s) = Some s"
| "tag_string (Tag i n as [c]) = tag_string c"
| "tag_string (Tag i n as cs) = None"

text \<open>\<open>tag.find(...)\<close>: the first match of \<open>find_all\<close>, or \<open>None\<close>.\<close>

definition find_first :: "(node \<Rightarrow> bool) \<Rightarrow> node list \<Rightarrow> node option" where
  "find_first P ns = (case find_all_desc P ns of [] \<Rightarrow> None | t # ts \<Rightarrow> Some t)"

text \<open>
  A tag \<open>t\<close> after the tag of identity \<open>i\<close> below it has been mutated by \<open>f\<close>. The script
  holds several references into one tree (\<open>document\<close>, \<open>body\<close>); after a mutation each of
  them is the tree it referred to with that mutation applied.
\<close>

fun mutate :: "nat \<Rightarrow> (node \<Rightarrow> node list) \<Rightarrow> node \<Rightarrow> node" where
  "mutate i f (NavigableString s) = NavigableString s"
| "mutate i f (Tag j n as cs) = Tag j n as (modify_forest i f cs)"

text \<open>\<open>tag.extract()\<close> and \<open>tag.replaceWithChildren()\<close>, as arguments of \<open>mutate\<close>.\<close>

definition extract_node :: "node \<Rightarrow> node list" where
  "extract_node t = []"

definition replaceWithChildren :: "node \<Rightarrow> node list" where
  "replaceWithChildren t = contents t"


text \<open>A tag with new contents.\<close>

fun set_contents :: "node \<Rightarrow> node list \<Rightarrow> node" where
  "set_contents (NavigableString s) cs = NavigableString s"
| "set_contents (Tag i n as old) cs = Tag i n as cs"

text \<open>
  \<open>tag.find_next_siblings(...)\<close>, for the tag of identity \<open>i\<close> below \<open>t\<close>: the nodes that
  follow it in the contents of its parent.
\<close>

fun following :: "nat \<Rightarrow> node list \<Rightarrow> node list option" where
  "following i [] = None"
| "following i (NavigableString s # cs) = following i cs"
| "following i (Tag j n as ds # cs) = (if j = i then Some cs else following i cs)"

fun next_siblings :: "nat \<Rightarrow> node \<Rightarrow> node list" where
  "next_siblings i (NavigableString s) = []"
| "next_siblings i (Tag j n as cs) =
     (case following i cs of
        Some rest \<Rightarrow> rest
      | None \<Rightarrow> concat (map (next_siblings i) cs))"

section \<open>The functions of \<open>main.py\<close>\<close>

definition HTML_TEMPLATE :: "string \<Rightarrow> string \<Rightarrow> string" where
  \<open>HTML_TEMPLATE title html = concat (map (\<lambda>line. line @ [CHR 0x0A])
     [[],
      ''    <!DOCTYPE html>'',
      ''    <html lang="en">'',
      ''        <head>'',
      ''            <title>'' @ title @ ''</title>'',
      ''            <meta charset="UTF-8">'',
      ''            <meta name="viewport" content="width=device-width, initial-scale=1">'',
      ''            <link href="main.css" rel="stylesheet">'',
      ''        </head>'',
      ''        <body>'',
      ''            '' @ html,
      ''        </body>'',
      ''    </html>''])\<close>

text \<open>A line in red, \<open>"\x1b[0;31m%s\x1b[0m"\<close>, and in green.\<close>

definition red :: "string \<Rightarrow> string" where
  "red text = CHR 0x1B # ''[0;31m'' @ text @ CHR 0x1B # ''[0m''"

text \<open>
  \<open>do_request(url)\<close>. Both calls stand in the \<open>try\<close>, and the \<open>except\<close> clause catches
  \<open>urllib.error.HTTPError\<close> only: another failure of the retrieval, and the exception of
  the parser on markup it rejects, reach the caller.
\<close>

definition do_request :: "env \<Rightarrow> string \<Rightarrow> node option run" where
  "do_request env url =
     (case urlopen env url of
        Response html \<Rightarrow>
          (case parse env html of
             Some document \<Rightarrow> ret (Some document)
           | None \<Rightarrow> raise ParserRejectedMarkup)
      | HTTPError code \<Rightarrow> ret None
      | OtherError \<Rightarrow> raise URLError)"

definition save_page :: "env \<Rightarrow> string \<Rightarrow> string \<Rightarrow> string \<Rightarrow> bool \<Rightarrow> unit run" where
  "save_page env file_name title html show_exists_error =
     bind_run (path_exists env file_name) (\<lambda>exists.
     bind_run (if show_exists_error \<and> exists
               then print (red (file_name @ '' - '' @ ''This page already exists...''))
               else ret ()) (\<lambda>_.
     write_text env file_name (HTML_TEMPLATE title html)))"

definition download_file :: "env \<Rightarrow> string \<Rightarrow> string \<Rightarrow> bool run" where
  "download_file env url file_name =
     (case urlopen env url of
        Response content \<Rightarrow> bind_run (write_file env file_name content) (\<lambda>_. ret True)
      | HTTPError code \<Rightarrow> ret False
      | OtherError \<Rightarrow> raise URLError)"

text \<open>
  \<open>re.sub("(.*)font-family:(.*);?\n", "", css_content)\<close>: a dot does not match a newline,
  so a match is a whole line that contains \<open>font-family:\<close> and ends in a newline. The lines
  are the pieces between the newlines; the last piece has no newline after it and stays.
\<close>

definition remove_font_family :: "string \<Rightarrow> string" where
  "remove_font_family css_content =
     (let pieces = split_on (CHR 0x0A) css_content
      in concat (map (\<lambda>line. line @ [CHR 0x0A])
           (filter (\<lambda>line. \<not> contains line ''font-family:'') (butlast pieces)))
         @ last pieces)"

definition font_rule :: string where
  \<open>font_rule = concat (map (\<lambda>line. line @ [CHR 0x0A])
     [[],
      ''        body {'',
      ''            font-family: -apple-system, BlinkMacSystemFont, '' @ [CHR 0x27] @ ''Segoe UI''
        @ [CHR 0x27] @ '', Roboto, Oxygen, Ubuntu, Cantarell, '' @ [CHR 0x27] @ ''Open Sans''
        @ [CHR 0x27] @ '', '' @ [CHR 0x27] @ ''Helvetica Neue'' @ [CHR 0x27] @ '', sans-serif;'',
      ''        }'']) @ ''    ''\<close>

definition download_css :: "env \<Rightarrow> unit run" where
  "download_css env =
     bind_run (download_file env ''https://doc-snapshots.qt.io/style/pyside.css'' ''main.css'')
       (\<lambda>_.
     bind_run (read_file env ''main.css'') (\<lambda>css_content.
     write_file env ''main.css'' (remove_font_family css_content @ font_rule)))"

text \<open>
  \<open>parse_main_page()\<close>. \<open>document.find\<close> on the \<open>None\<close> of a failed request, and a method
  called on the \<open>None\<close> of a \<open>find\<close> without a match, raise \<open>AttributeError\<close>; the index
  \<open>[0]\<close> into an empty result set raises \<open>IndexError\<close>.
\<close>

definition parse_main_page :: "env \<Rightarrow> node list run" where
  \<open>parse_main_page env =
     bind_run (do_request env ''https://doc-snapshots.qt.io/qtforpython/'') (\<lambda>document.
     bind_run (or_raise document AttributeError) (\<lambda>document.
     bind_run (or_raise (find_first (\<lambda>t. is_tag ''div'' t \<and> has_class ''bodywrapper'' t)
                 (contents document)) AttributeError) (\<lambda>body.
     bind_run (or_raise (find_first (\<lambda>t. get_attr ''id'' t = Some ''qt-modules'') (contents body))
                 AttributeError) (\<lambda>qt_modules.
     bind_run (first_or_raise (find_all_desc (is_tag ''p'') (contents qt_modules)) IndexError)
       (\<lambda>p.
     let document = mutate (ident p) extract_node document;
         body = mutate (ident p) extract_node body;
         qt_modules = mutate (ident p) extract_node qt_modules
     in
     bind_run (first_or_raise (find_all_desc (is_tag ''div'') (contents qt_modules)) IndexError)
       (\<lambda>d.
     let document = mutate (ident d) extract_node document;
         body = mutate (ident d) extract_node body;
         html_body = replace ''href="PySide2/'' ''href="'' (render env body);
         html_body = replace ''/index.html'' ''-index.html'' html_body
     in
     bind_run (or_raise (find_first (is_tag ''title'') (contents document)) AttributeError)
       (\<lambda>title.
     bind_run (save_page env ''index.html'' (py_str (tag_string title)) html_body True) (\<lambda>_.
     ret (find_all_desc (\<lambda>t. is_tag ''a'' t \<and> has_class ''external'' t) (contents body))
     ))))))))\<close>

text \<open>
  What \<open>clean_links(body, url)\<close> makes of \<open>document\<close> and of \<open>body\<close>, two references into
  the same tree.
\<close>

definition clean_links_in :: "env \<Rightarrow> string \<Rightarrow> node \<times> node \<Rightarrow> node \<times> node" where
  "clean_links_in env url refs =
     (set_contents (fst refs)
        (fold (clean_links_step (getcwd env) url)
           (find_all_desc link_filter (contents (snd refs))) (contents (fst refs))),
      set_contents (snd refs) (clean_links (getcwd env) (snd refs) url))"

text \<open>
  \<open>parse_module_index_page(module)\<close>. The result is \<open>None\<close> for the \<open>False\<close> the function
  returns when the page is not found, and the \<open>body\<close> otherwise.
\<close>

definition parse_module_index_page :: "env \<Rightarrow> string \<Rightarrow> node option run" where
  "parse_module_index_page env module =
     bind_run (print (''Indexing '' @ module)) (\<lambda>_.
     let url = ''https://doc-snapshots.qt.io/qtforpython/PySide2/'' @ module @ ''/index.html'' in
     bind_run (do_request env url) (\<lambda>document.
     if document = None then ret None else
     bind_run (or_raise document AttributeError) (\<lambda>document.
     bind_run (or_raise (find_first (\<lambda>t. is_tag ''div'' t \<and> has_class ''bodywrapper'' t)
                 (contents document)) AttributeError) (\<lambda>body.
     bind_run (or_raise (find_first
                 (\<lambda>t. is_tag ''div'' t \<and> has_class ''hide docutils container'' t)
                 (contents body)) AttributeError) (\<lambda>hide.
     let refs = (mutate (ident hide) extract_node document,
                 mutate (ident hide) extract_node body);
         refs = clean_links_in env url refs;
         document = fst refs;
         body = snd refs;
         file_path = module @ ''-index.html''
     in
     bind_run (or_raise (find_first (is_tag ''title'') (contents document)) AttributeError)
       (\<lambda>title.
     bind_run (save_page env file_path (py_str (tag_string title)) (render env body) True) (\<lambda>_.
     bind_run (insert_entry module ''Module'' file_path) (\<lambda>_.
     ret (Some body)))))))))"

text \<open>
  The links after the first \<open>strong\<close> tag whose text is \<open>Inherited by:\<close>, and the loop that
  cuts their \<open>href\<close> at the first \<open>#\<close>. \<open>link["href"]\<close> raises \<open>KeyError\<close> on a link
  without an \<open>href\<close>.
\<close>

definition inherited_links :: "node \<Rightarrow> node list" where
  "inherited_links body =
     (case find_first (\<lambda>t. is_tag ''strong'' t \<and> tag_string t = Some ''Inherited by:'')
             (contents body) of
        None \<Rightarrow> []
      | Some inherited_strong \<Rightarrow>
          filter (is_tag ''a'') (next_siblings (ident inherited_strong) body))"

definition strip_anchor :: "node \<Rightarrow> node \<times> node \<Rightarrow> (node \<times> node) run" where
  "strip_anchor link refs =
     bind_run (or_raise (get_attr ''href'' link) KeyError) (\<lambda>href.
     let f = (\<lambda>t. [set_attr ''href'' (hd (split_on CHR ''#'' href)) t])
     in ret (mutate (ident link) f (fst refs), mutate (ident link) f (snd refs)))"

text \<open>The loop over the images of a class page.\<close>

definition download_image :: "env \<Rightarrow> node \<Rightarrow> node \<times> node \<Rightarrow> (node \<times> node) run" where
  "download_image env img refs =
     bind_run (or_raise (get_attr ''src'' img) KeyError) (\<lambda>src.
     let img_src = replace ''../../'' [] src;
         image_file_name = basename img_src
     in
     bind_run (download_file env (''https://doc-snapshots.qt.io/qtforpython/'' @ img_src)
                 image_file_name) (\<lambda>success.
     let f = (if success then (\<lambda>t. [set_attr ''src'' image_file_name t]) else extract_node)
     in ret (mutate (ident img) f (fst refs), mutate (ident img) f (snd refs))))"

text \<open>The type of the entry of a class, by the end of its name.\<close>

definition database_type :: "string \<Rightarrow> string" where
  "database_type class_name =
     (if endswith class_name ''Event'' then ''Event''
      else if endswith class_name ''Interface'' then ''Interface''
      else if endswith class_name ''Enum'' then ''Enum''
      else ''Class'')"

text \<open>The body of the loop over the methods of the synopsis.\<close>

definition insert_method :: "string \<Rightarrow> string option \<Rightarrow> string \<Rightarrow> node \<Rightarrow> unit \<Rightarrow> unit run" where
  "insert_method module class_name file_path method u =
     (let entry_name = ''PySide2.'' @ module @ ''.'' @ py_str class_name @ ''.''
            @ py_str (tag_string method)
      in bind_run (or_raise (get_attr ''href'' method) KeyError) (\<lambda>href.
         insert_entry entry_name ''Method'' (file_path @ href)))"

text \<open>
  \<open>parse_class_page(module, class_name)\<close>, in two halves: up to \<open>save_page\<close>, and the
  entries of the index. The class name is \<open>function.string\<close> of a link of the module page
  and may be \<open>None\<close>; then \<open>class_name.endswith\<close> raises \<open>AttributeError\<close>, after the page
  \<open>None.html\<close> has been saved.
\<close>

definition save_class_page :: "env \<Rightarrow> string \<Rightarrow> string option \<Rightarrow> node run" where
  "save_class_page env module class_name =
     (let url = ''https://doc-snapshots.qt.io/qtforpython/PySide2/'' @ module @ ''/''
            @ py_str class_name @ ''.html'' in
     bind_run (do_request env url) (\<lambda>document.
     bind_run (or_raise document AttributeError) (\<lambda>document.
     bind_run (or_raise (find_first (\<lambda>t. is_tag ''div'' t \<and> has_class ''bodywrapper'' t)
                 (contents document)) AttributeError) (\<lambda>body.
     bind_run (for_each strip_anchor (inherited_links body) (document, body)) (\<lambda>refs.
     let refs = clean_links_in env url refs in
     bind_run (for_each (download_image env)
                 (find_all_desc (is_tag ''img'') (contents (snd refs))) refs) (\<lambda>refs.
     let document = fst refs;
         body = snd refs;
         file_path = py_str class_name @ ''.html''
     in
     bind_run (or_raise (find_first (is_tag ''title'') (contents document)) AttributeError)
       (\<lambda>title.
     bind_run (save_page env file_path (py_str (tag_string title)) (render env body) True) (\<lambda>_.
     ret body))))))))"

definition index_class_page :: "string \<Rightarrow> string option \<Rightarrow> node \<Rightarrow> unit run" where
  "index_class_page module class_name body =
     (let file_path = py_str class_name @ ''.html'' in
     bind_run (or_raise class_name AttributeError) (\<lambda>name.
     bind_run (insert_entry (''PySide2.'' @ module @ ''.'' @ name) (database_type name) file_path)
       (\<lambda>_.
     case find_first (\<lambda>t. get_attr ''id'' t = Some ''synopsis'') (contents body) of
       None \<Rightarrow> ret ()
     | Some synopsis \<Rightarrow>
         for_each (insert_method module class_name file_path)
           (find_all_desc (\<lambda>t. is_tag ''a'' t \<and> has_class ''reference internal'' t)
              (contents synopsis)) ())))"

definition parse_class_page :: "env \<Rightarrow> string \<Rightarrow> string option \<Rightarrow> unit run" where
  "parse_class_page env module class_name =
     bind_run (save_class_page env module class_name) (index_class_page module class_name)"

text \<open>
  The body of the loop over the functions of a module page: \<open>index\<close> counts from 1, \<open>nb\<close> is
  \<open>len(functions)\<close>.
\<close>

definition class_step :: "env \<Rightarrow> string \<Rightarrow> nat \<Rightarrow> nat \<times> node \<Rightarrow> unit \<Rightarrow> unit run" where
  "class_step env module_slug nb item u =
     bind_run (print (''  -- '' @ decimal nb @ '' functions founds. Indexing ''
                 @ decimal (fst item) @ '' / '' @ decimal nb)) (\<lambda>_.
     parse_class_page env module_slug (tag_string (snd item)))"

text \<open>
  The body of the loop over the modules, with the list \<open>modules_in_404\<close> it appends to.
  \<open>module.string.replace\<close> raises \<open>AttributeError\<close> when \<open>module.string\<close> is \<open>None\<close>.
\<close>

definition module_step :: "env \<Rightarrow> node \<Rightarrow> string list \<Rightarrow> string list run" where
  "module_step env module_tag modules_in_404 =
     bind_run (or_raise (tag_string module_tag) AttributeError) (\<lambda>string.
     let module_slug = replace '' '' [] string in
     bind_run (parse_module_index_page env module_slug) (\<lambda>module_index_body.
     case module_index_body of
       None \<Rightarrow>
         (let modules_in_404 = modules_in_404 @ [module_slug] in
          bind_run (print (red (''  -- '' @ ''Page not found. Skip...''))) (\<lambda>_.
          ret modules_in_404))
     | Some body \<Rightarrow>
         bind_run (or_raise (find_first
                     (\<lambda>t. is_tag ''div'' t \<and> has_class ''pysidetoc docutils container'' t)
                     (contents body)) AttributeError) (\<lambda>toc.
         let functions = find_all_desc (\<lambda>t. is_tag ''a'' t \<and> has_class ''internal'' t)
               (contents toc) in
         bind_run (for_each (class_step env module_slug (length functions))
                     (zip [1 ..< Suc (length functions)] functions) ()) (\<lambda>_.
         bind_run (print []) (\<lambda>_.
         ret modules_in_404)))))"

text \<open>
  The body of the loop of the last pass over the root page:
  \<open>main_page_body.find("a", href=re.compile(module_in_404)).replaceWithChildren()\<close>.
\<close>

definition prune_step :: "env \<Rightarrow> string \<Rightarrow> node \<Rightarrow> node run" where
  "prune_step env module_in_404 main_page_body =
     bind_run (or_raise (find_first
                 (\<lambda>t. is_tag ''a'' t \<and>
                    (case get_attr ''href'' t of
                       None \<Rightarrow> False
                     | Some href \<Rightarrow> re_search env module_in_404 href))
                 (contents main_page_body)) AttributeError) (\<lambda>link.
     ret (mutate (ident link) replaceWithChildren main_page_body))"

definition banner :: "unit run" where
  "banner =
     bind_run (print []) (\<lambda>_.
     bind_run (print (CHR 0x1B # ''[0;32m------------------------------------'')) (\<lambda>_.
     bind_run (print ''| Developed By Yohan T.            |'') (\<lambda>_.
     bind_run (print ''| Find Me On Github:               |'') (\<lambda>_.
     bind_run (print ''| https://github.com/Cronos87      |'') (\<lambda>_.
     print (''------------------------------------'' @ CHR 0x1B # ''[0m''))))))"

text \<open>
  \<open>main()\<close>. The files of \<open>DOC_PATH\<close> are kept by name, so \<open>os.makedirs\<close> has nothing to do
  in the model.
\<close>

definition crawl :: "env \<Rightarrow> string list run" where
  "crawl env =
     bind_run (download_file env ''https://doc-snapshots.qt.io/style/list_arrow.png''
                 ''list_arrow.png'') (\<lambda>_.
     bind_run (parse_main_page env) (\<lambda>modules.
     for_each (module_step env) modules []))"

definition prune_main_page :: "env \<Rightarrow> string list \<Rightarrow> unit run" where
  "prune_main_page env modules_in_404 =
     bind_run (read_file env ''index.html'') (\<lambda>content.
     bind_run (or_raise (parse env content) ParserRejectedMarkup) (\<lambda>main_page_body.
     bind_run (for_each (prune_step env) modules_in_404 main_page_body) (\<lambda>main_page_body.
     bind_run (or_raise (find_first (is_tag ''title'') (contents main_page_body)) AttributeError)
       (\<lambda>title.
     save_page env ''index.html'' (py_str (tag_string title)) (render env main_page_body) False))))"

definition main :: "env \<Rightarrow> unit run" where
  "main env =
     bind_run init_database (\<lambda>_.
     bind_run (download_css env) (\<lambda>_.
     bind_run (crawl env) (\<lambda>modules_in_404.
     bind_run (prune_main_page env modules_in_404) (\<lambda>_.
     banner))))"

section \<open>What a run reads and what it leaves behind\<close>

text \<open>
  Three properties of a function of the script, used to compare two runs: its result and
  the index it leaves depend on the index it finds and on nothing else of the state; it
  leaves the index as it found it; it deletes no file. They are not part of the program.
\<close>

definition db_only :: "'a run \<Rightarrow> bool" where
  "db_only m = (\<forall>s t. searchIndex s = searchIndex t \<longrightarrow>
     fst (m s) = fst (m t) \<and> searchIndex (snd (m s)) = searchIndex (snd (m t)))"

definition db_kept :: "'a run \<Rightarrow> bool" where
  "db_kept m = (\<forall>s. searchIndex (snd (m s)) = searchIndex s)"

definition files_grow :: "'a run \<Rightarrow> bool" where
  "files_grow m = (\<forall>s. dom (files s) \<subseteq> dom (files (snd (m s))))"

named_theorems db_only_intros
named_theorems db_kept_intros
named_theorems files_grow_intros

section \<open>The inheritance links on the serial form\<close>

text \<open>
  What the assignment \<open>link["href"] = link["href"].split("#")[0]\<close> of \<open>parse_class_page\<close>
  does, one link at a time and without the exception: \<open>strip_link\<close> on a tree that holds
  the link, \<open>strip_events\<close> on the serial form of such a tree, where \<open>set_event_attr\<close> sets
  an attribute in the events of one tag. \<open>event_idents\<close> lists the identities of the tags
  whose events occur. They serve to state what the loop of \<open>strip_anchor\<close> leaves; they
  are not part of the program.
\<close>

fun set_event_attr :: "nat \<Rightarrow> string \<Rightarrow> string \<Rightarrow> event \<Rightarrow> event" where
  "set_event_attr j k v (StartTag i n as) =
     (if i = j then StartTag i n (AList.update k v as) else StartTag i n as)"
| "set_event_attr j k v (EndTag i n as) =
     (if i = j then EndTag i n (AList.update k v as) else EndTag i n as)"
| "set_event_attr j k v (Data s) = Data s"

fun event_idents :: "event list \<Rightarrow> nat list" where
  "event_idents [] = []"
| "event_idents (StartTag i n as # es) = i # event_idents es"
| "event_idents (EndTag i n as # es) = i # event_idents es"
| "event_idents (Data s # es) = event_idents es"

definition strip_link :: "node \<Rightarrow> node \<Rightarrow> node" where
  "strip_link link t =
     (case get_attr ''href'' link of
        None \<Rightarrow> t
      | Some href \<Rightarrow>
          mutate (ident link) (\<lambda>x. [set_attr ''href'' (hd (split_on CHR ''#'' href)) x]) t)"

definition strip_events :: "node \<Rightarrow> event list \<Rightarrow> event list" where
  "strip_events link es =
     (case get_attr ''href'' link of
        None \<Rightarrow> es
      | Some href \<Rightarrow>
          map (set_event_attr (ident link) ''href'' (hd (split_on CHR ''#'' href))) es)"

section \<open>Properties of the string and path functions\<close>

lemma split_on_nonempty: "split_on c s \<noteq> []"
  by (induction s) (auto split: list.splits)

lemma split_on_Cons:
  "split_on c (x # xs) =
     (if x = c then [] # split_on c xs
      else (x # hd (split_on c xs)) # tl (split_on c xs))"
  using split_on_nonempty[of c xs] by (cases "split_on c xs") auto

lemma split_on_no_sep: "c \<notin> set s \<Longrightarrow> split_on c s = [s]"
  by (induction s) auto

lemma length_split_on: "length (split_on c s) = Suc (length (filter (\<lambda>x. x = c) s))"
proof (induction s)
  case Nil
  show ?case by simp
next
  case (Cons x xs)
  have "length (tl (split_on c xs)) = length (split_on c xs) - 1" by simp
  with Cons show ?case by (simp add: split_on_Cons del: split_on.simps)
qed

lemma split_on_pieces: "p \<in> set (split_on c s) \<Longrightarrow> c \<notin> set p"
proof (induction s arbitrary: p)
  case Nil
  then show ?case by simp
next
  case (Cons x xs)
  show ?case
  proof (cases "x = c")
    case True
    with Cons show ?thesis by auto
  next
    case False
    have hd_in: "hd (split_on c xs) \<in> set (split_on c xs)"
      using split_on_nonempty by simp
    have tl_in: "set (tl (split_on c xs)) \<subseteq> set (split_on c xs)"
      using split_on_nonempty[of c xs] by (cases "split_on c xs") auto
    from Cons.prems False have "p = x # hd (split_on c xs) \<or> p \<in> set (tl (split_on c xs))"
      by (simp add: split_on_Cons del: split_on.simps)
    then show ?thesis
    proof
      assume "p = x # hd (split_on c xs)"
      then show ?thesis using Cons.IH[OF hd_in] False by auto
    next
      assume "p \<in> set (tl (split_on c xs))"
      then show ?thesis using Cons.IH tl_in by blast
    qed
  qed
qed

lemma last_split_on_no_sep: "c \<notin> set (last (split_on c s))"
  using split_on_pieces[of "last (split_on c s)" c s] split_on_nonempty[of c s] by simp

lemma last_split_on_append: "last (split_on c (a @ c # b)) = last (split_on c b)"
proof (induction a)
  case Nil
  show ?case using split_on_nonempty[of c b] by simp
next
  case (Cons x a)
  let ?r = "split_on c (a @ c # b)"
  have "2 \<le> length ?r" by (simp add: length_split_on)
  then have tl: "tl ?r \<noteq> []" by (cases ?r) auto
  then have "last (tl ?r) = last ?r" by (cases ?r) auto
  with Cons tl show ?case using split_on_nonempty[of c "a @ c # b"]
    by (simp add: split_on_Cons del: split_on.simps)
qed

lemma join_snoc: "join sep (ys @ [p]) = (if ys = [] then p else join sep ys @ sep @ p)"
  by (induction sep ys rule: join.induct) auto

lemma last_split_on_suffix:
  assumes "c \<notin> set seg" and "w = [] \<or> last w = c"
  shows "last (split_on c (w @ seg)) = seg"
proof (cases "w = []")
  case True
  then show ?thesis using assms(1) by (simp add: split_on_no_sep)
next
  case False
  with assms(2) have "w = butlast w @ [c]" by (metis append_butlast_last_id)
  then have "w @ seg = butlast w @ c # seg" by (metis append.assoc append_Cons append_Nil)
  then have "split_on c (w @ seg) = split_on c (butlast w @ c # seg)" by (rule arg_cong)
  moreover have "last (split_on c (butlast w @ c # seg)) = seg"
    using assms(1) by (simp add: last_split_on_append split_on_no_sep)
  ultimately show ?thesis by (simp only:)
qed

lemma fold_normpath_step_snoc:
  assumes "seg \<noteq> []" "seg \<noteq> ''.''" "seg \<noteq> ''..''"
  shows "fold (normpath_step k) (cs @ [seg]) [] = fold (normpath_step k) cs [] @ [seg]"
  using assms by (simp add: normpath_step_def)

lemma last_segment_normpath:
  assumes seg: "last (split_on CHR ''/'' p) = seg" "seg \<noteq> []" "seg \<noteq> ''.''" "seg \<noteq> ''..''"
  shows "last (split_on CHR ''/'' (normpath p)) = seg"
proof -
  have ne: "p \<noteq> []" using seg by auto
  have noslash: "CHR ''/'' \<notin> set seg" using seg(1) last_split_on_no_sep by blast
  obtain k where k: "normpath p =
      (let new_comps = fold (normpath_step k) (split_on CHR ''/'' p) [];
           path' = replicate k CHR ''/'' @ join ''/'' new_comps
       in if path' = [] then ''.'' else path')"
    using ne by (simp add: normpath_def Let_def)
  have comps: "split_on CHR ''/'' p = butlast (split_on CHR ''/'' p) @ [seg]"
    using seg(1) split_on_nonempty[of "CHR ''/''" p] by (metis append_butlast_last_id)
  define ys where "ys = fold (normpath_step k) (butlast (split_on CHR ''/'' p)) []"
  have nc: "fold (normpath_step k) (split_on CHR ''/'' p) [] = ys @ [seg]"
    using fold_normpath_step_snoc[OF seg(2-4), of k "butlast (split_on CHR ''/'' p)"] comps
    by (simp add: ys_def)
  define w where "w = replicate k CHR ''/'' @ (if ys = [] then [] else join ''/'' ys @ ''/'')"
  have path': "replicate k CHR ''/'' @ join ''/'' (ys @ [seg]) = w @ seg"
    by (simp add: w_def join_snoc)
  have "w = [] \<or> last w = CHR ''/''"
  proof (cases "ys = []")
    case True
    then show ?thesis by (cases k) (simp_all add: w_def)
  next
    case False
    then show ?thesis by (simp add: w_def)
  qed
  then have "last (split_on CHR ''/'' (w @ seg)) = seg"
    using noslash by (intro last_split_on_suffix) auto
  moreover have "join ''/'' (ys @ [seg]) \<noteq> []"
    using seg(2) by (simp add: join_snoc)
  then have "normpath p = w @ seg"
    using k nc path' by (simp add: Let_def)
  ultimately show ?thesis by simp
qed

lemma resolved_shape:
  "\<exists>x. (if startswith (d @ ''/'' @ h) ''/'' then d @ ''/'' @ h else path_join cwd (d @ ''/'' @ h))
      = x @ CHR ''/'' # h"
proof (cases "startswith (d @ ''/'' @ h) ''/''")
  case True
  then show ?thesis by (intro exI[of _ d]) simp
next
  case False
  show ?thesis
  proof (cases "cwd = [] \<or> endswith cwd ''/''")
    case True
    with False show ?thesis by (intro exI[of _ "cwd @ d"]) (simp add: path_join_def)
  next
    case f: False
    with False show ?thesis by (intro exI[of _ "cwd @ ''/'' @ d"]) (simp add: path_join_def)
  qed
qed

lemma last_segment_resolved:
  assumes "seg = last (split_on CHR ''/'' h)" "seg \<noteq> []" "seg \<noteq> ''.''" "seg \<noteq> ''..''"
  shows "last (split_on CHR ''/'' (resolved cwd url h)) = seg"
proof -
  obtain x where x: "(if startswith (dirname url @ ''/'' @ h) ''/'' then dirname url @ ''/'' @ h
      else path_join cwd (dirname url @ ''/'' @ h)) = x @ CHR ''/'' # h"
    using resolved_shape by blast
  have "last (split_on CHR ''/'' (x @ CHR ''/'' # h)) = seg"
    using assms(1) by (simp add: last_split_on_append)
  then have "last (split_on CHR ''/'' (normpath (x @ CHR ''/'' # h))) = seg"
    using assms(2-4) by (intro last_segment_normpath)
  then show ?thesis by (simp only: resolved_def abspath_def x)
qed

lemma parent_href_matches: "startswith h ''../'' \<Longrightarrow> href_re_search h"
proof -
  assume "startswith h ''../''"
  then have "take 3 h = ''../''" by (simp add: startswith_def numeral_3_eq_3)
  then have "h = ''../'' @ drop 3 h" by (metis append_take_drop_id)
  then obtain r where "h = CHR ''.'' # CHR ''.'' # CHR ''/'' # r" by auto
  then show ?thesis by (simp add: href_re_search_def)
qed

lemma contains_startswith: "startswith s p \<Longrightarrow> contains s p"
  by (cases s) (auto simp: startswith_def)

lemma contains_append_right: "contains b p \<Longrightarrow> contains (a @ b) p"
proof (induction a)
  case Nil
  then show ?case by simp
next
  case (Cons x a)
  then show ?case by simp
qed

lemma startswith_append: "startswith s p \<Longrightarrow> startswith (s @ r) p"
proof -
  assume "startswith s p"
  then have t: "take (length p) s = p" by (simp add: startswith_def)
  have "length (take (length p) s) = min (length p) (length s)" by simp
  with t have "length p = min (length p) (length s)" by simp
  then have "length p \<le> length s" by linarith
  then show ?thesis using t by (simp add: startswith_def)
qed

lemma contains_append_left: "contains a p \<Longrightarrow> contains (a @ b) p"
proof (induction a)
  case Nil
  then show ?case by (cases b) (simp_all add: startswith_def)
next
  case (Cons x a)
  then show ?case using startswith_append[of "x # a" p b] by auto
qed

lemma contains_self: "contains p p"
  by (rule contains_startswith) (simp add: startswith_def)

lemma last_split_on_suffix_aux:
  "\<exists>w. s = w @ last (split_on c s) \<and> (length (split_on c s) = 1 \<longrightarrow> w = [])"
proof (induction s)
  case Nil
  show ?case by simp
next
  case (Cons x s)
  then obtain w where w: "s = w @ last (split_on c s)"
    and one: "length (split_on c s) = 1 \<longrightarrow> w = []" by blast
  obtain p ps where r: "split_on c s = p # ps"
    using split_on_nonempty[of c s] by (cases "split_on c s") auto
  show ?case
  proof (cases "x = c")
    case True
    then have "last (split_on c (x # s)) = last (split_on c s)"
      and "length (split_on c (x # s)) \<noteq> 1" using r by simp_all
    moreover have "x # s = (x # w) @ last (split_on c s)" using w by simp
    ultimately show ?thesis by metis
  next
    case False
    show ?thesis
    proof (cases ps)
      case Nil
      then have "w = []" using one r by simp
      then have "s = p" using w r Nil by simp
      then have "last (split_on c (x # s)) = x # s" using False r Nil by simp
      then show ?thesis by (intro exI[of _ "[]"]) simp
    next
      case (Cons q qs)
      then have "last (split_on c (x # s)) = last (split_on c s)"
        and "length (split_on c (x # s)) \<noteq> 1" using False r by simp_all
      moreover have "x # s = (x # w) @ last (split_on c s)" using w by simp
      ultimately show ?thesis by metis
    qed
  qed
qed

lemma contains_last_segment: "contains s (last (split_on c s))"
proof -
  obtain w where "s = w @ last (split_on c s)" using last_split_on_suffix_aux by blast
  then show ?thesis using contains_append_right[OF contains_self] by metis
qed

lemma documentation_root_resolved:
  "documentation_root cwd =
     resolved cwd ''https://doc-snapshots.qt.io/qtforpython/index.html'' ''PySide2''"
  by (simp add: documentation_root_def resolved_def dirname_def rstrip_def)

lemma documentation_root_contains: "contains (documentation_root cwd) ''PySide2''"
proof -
  have "last (split_on CHR ''/'' (documentation_root cwd)) = ''PySide2''"
    unfolding documentation_root_resolved
    by (rule last_segment_resolved) simp_all
  then show ?thesis using contains_last_segment[of "documentation_root cwd" "CHR ''/''"] by simp
qed

lemma spec_inside_in_documentation:
  assumes "spec_inside_documentation cwd current_url href"
  shows "in_documentation cwd current_url href"
proof -
  from assms have "\<exists>r. resolved cwd current_url href = documentation_root cwd @ r"
  proof (unfold spec_inside_documentation_def, elim disjE)
    assume "resolved cwd current_url href = documentation_root cwd"
    then show ?thesis by simp
  next
    assume "startswith (resolved cwd current_url href) (documentation_root cwd @ ''/'')"
    then have "resolved cwd current_url href =
        (documentation_root cwd @ ''/'')
        @ drop (length (documentation_root cwd @ ''/'')) (resolved cwd current_url href)"
      unfolding startswith_def by (metis append_take_drop_id)
    then show ?thesis by (metis append.assoc)
  qed
  then obtain r where "resolved cwd current_url href = documentation_root cwd @ r" by blast
  then show ?thesis
    using contains_append_left[OF documentation_root_contains, of cwd r]
    by (simp add: in_documentation_def)
qed

section \<open>Properties of the tree operations\<close>

lemma forest_ids_append: "forest_ids (xs @ ys) = forest_ids xs @ forest_ids ys"
  by (simp add: forest_ids_def)

lemma forest_ids_Cons: "forest_ids (x # xs) = tag_ids x @ forest_ids xs"
  by (simp add: forest_ids_def)

lemma forest_ids_Nil: "forest_ids [] = []"
  by (simp add: forest_ids_def)

lemma tag_ids_Tag: "tag_ids (Tag i n as cs) = i # forest_ids cs"
  by (simp add: forest_ids_def)

lemma concat_map_singleton:
  "(\<And>x. x \<in> set xs \<Longrightarrow> f x = [x]) \<Longrightarrow> concat (map f xs) = xs"
  by (induction xs) simp_all

lemma forest_ids_concat_map:
  "(\<And>x. x \<in> set xs \<Longrightarrow> set (forest_ids (f x)) \<subseteq> set (tag_ids x))
   \<Longrightarrow> set (forest_ids (concat (map f xs))) \<subseteq> set (forest_ids xs)"
proof (induction xs)
  case Nil
  show ?case by (simp add: forest_ids_def)
next
  case (Cons x xs)
  have "set (forest_ids (f x)) \<subseteq> set (tag_ids x)" using Cons.prems by simp
  moreover have "set (forest_ids (concat (map f xs))) \<subseteq> set (forest_ids xs)"
    using Cons by simp
  ultimately show ?case
    by (simp add: forest_ids_append forest_ids_Cons) blast
qed

lemma modify_other: "i \<notin> set (tag_ids n) \<Longrightarrow> modify i f n = [n]"
proof (induction n)
  case (NavigableString s)
  show ?case by simp
next
  case (Tag j nm as cs)
  have "concat (map (modify i f) cs) = cs"
    using Tag by (intro concat_map_singleton) auto
  with Tag.prems show ?case by simp
qed

lemma modify_forest_other:
  "i \<notin> set (forest_ids ns) \<Longrightarrow> modify_forest i f ns = ns"
  by (induction ns) (simp_all add: modify_forest_def forest_ids_def modify_other)

lemma modify_forest_append:
  "modify_forest i f (xs @ ys) = modify_forest i f xs @ modify_forest i f ys"
  by (simp add: modify_forest_def)

lemma modify_forest_ids:
  assumes "\<And>t. set (forest_ids (f t)) \<subseteq> set (tag_ids t)"
  shows "set (forest_ids (modify i f n)) \<subseteq> set (tag_ids n)"
proof (induction n)
  case (NavigableString s)
  show ?case by (simp add: forest_ids_def)
next
  case (Tag j nm as cs)
  have "set (forest_ids (concat (map (modify i f) cs))) \<subseteq> set (forest_ids cs)"
    using Tag by (intro forest_ids_concat_map) auto
  then show ?case using assms[of "Tag j nm as cs"]
    by (simp add: tag_ids_Tag forest_ids_Cons forest_ids_Nil del: tag_ids.simps) blast
qed

lemma find_all_in_ids: "ident ` set (find_all_in P n) \<subseteq> set (tag_ids n)"
  by (induction n) auto

lemma find_all_desc_ids: "ident ` set (find_all_desc P ns) \<subseteq> set (forest_ids ns)"
  using find_all_in_ids by (fastforce simp: find_all_desc_def forest_ids_def)

lemma clean_tag_ids: "set (forest_ids (clean_tag cwd url t)) \<subseteq> set (tag_ids t)"
  by (cases t) (auto simp: clean_tag_def forest_ids_def split: option.splits)

lemma clean_tag_ids_Tag:
  "set (forest_ids (clean_tag cwd url (Tag i n as cs))) \<subseteq> insert i (set (forest_ids cs))"
  using clean_tag_ids[of cwd url "Tag i n as cs"] by (simp add: forest_ids_def)

lemma clean_node_ids: "set (forest_ids (clean_node cwd url n)) \<subseteq> set (tag_ids n)"
proof (induction n)
  case (NavigableString s)
  show ?case by (simp add: forest_ids_def)
next
  case (Tag j nm as cs)
  have sub: "set (forest_ids (concat (map (clean_node cwd url) cs))) \<subseteq> set (forest_ids cs)"
    using Tag by (intro forest_ids_concat_map) auto
  show ?case
  proof (cases "link_filter (Tag j nm as cs)")
    case True
    then show ?thesis
      using clean_tag_ids_Tag[of cwd url j nm as "concat (map (clean_node cwd url) cs)"] sub
      by (simp add: tag_ids_Tag del: tag_ids.simps) blast
  next
    case False
    then show ?thesis using sub
      by (simp add: tag_ids_Tag forest_ids_Cons forest_ids_Nil del: tag_ids.simps) blast
  qed
qed

lemma clean_forest_ids: "set (forest_ids (clean_forest cwd url ns)) \<subseteq> set (forest_ids ns)"
  using clean_node_ids by (fastforce simp: clean_forest_def forest_ids_def)


lemma fold_step_left:
  "ident ` set ts \<inter> set (forest_ids B) = {} \<Longrightarrow>
   fold (clean_links_step cwd url) ts (A @ B) = fold (clean_links_step cwd url) ts A @ B"
proof (induction ts arbitrary: A)
  case Nil
  show ?case by simp
next
  case (Cons t ts)
  have "ident t \<notin> set (forest_ids B)" using Cons.prems by auto
  then have "clean_links_step cwd url t (A @ B) = clean_links_step cwd url t A @ B"
    by (simp add: clean_links_step_def modify_forest_append modify_forest_other)
  moreover have "ident ` set ts \<inter> set (forest_ids B) = {}" using Cons.prems by auto
  ultimately show ?case using Cons.IH by simp
qed

lemma fold_step_right:
  "ident ` set ts \<inter> set (forest_ids A) = {} \<Longrightarrow>
   fold (clean_links_step cwd url) ts (A @ B) = A @ fold (clean_links_step cwd url) ts B"
proof (induction ts arbitrary: B)
  case Nil
  show ?case by simp
next
  case (Cons t ts)
  have "ident t \<notin> set (forest_ids A)" using Cons.prems by auto
  then have "clean_links_step cwd url t (A @ B) = A @ clean_links_step cwd url t B"
    by (simp add: clean_links_step_def modify_forest_append modify_forest_other)
  moreover have "ident ` set ts \<inter> set (forest_ids A) = {}" using Cons.prems by auto
  ultimately show ?case using Cons.IH by simp
qed

lemma fold_step_under:
  "j \<notin> ident ` set ts \<Longrightarrow>
   fold (clean_links_step cwd url) ts [Tag j n as cs] =
   [Tag j n as (fold (clean_links_step cwd url) ts cs)]"
proof (induction ts arbitrary: cs)
  case Nil
  show ?case by simp
next
  case (Cons t ts)
  have "ident t \<noteq> j" using Cons.prems by auto
  then have "clean_links_step cwd url t [Tag j n as cs] = [Tag j n as (clean_links_step cwd url t cs)]"
    by (simp add: clean_links_step_def modify_forest_def)
  moreover have "j \<notin> ident ` set ts" using Cons.prems by auto
  ultimately show ?case using Cons.IH by simp
qed

lemma clean_tag_shape:
  "(\<exists>as'. \<forall>cs. clean_tag cwd url (Tag j n as cs) = [Tag j n as' cs]) \<or>
   (\<forall>cs. clean_tag cwd url (Tag j n as cs) = cs)"
  by (cases "map_of as ''href''") (auto simp: clean_tag_def)

lemma find_all_desc_Cons:
  "find_all_desc P (c # cs) = find_all_in P c @ find_all_desc P cs"
  by (simp add: find_all_desc_def)

lemma clean_forest_Cons:
  "clean_forest cwd url (c # cs) = clean_node cwd url c @ clean_forest cwd url cs"
  by (simp add: clean_forest_def)

lemma fold_clean_forest_aux:
  assumes "\<And>c. c \<in> set cs \<Longrightarrow> distinct (tag_ids c) \<Longrightarrow>
             fold (clean_links_step cwd url) (find_all_in link_filter c) [c] = clean_node cwd url c"
    and "distinct (forest_ids cs)"
  shows "fold (clean_links_step cwd url) (find_all_desc link_filter cs) cs = clean_forest cwd url cs"
  using assms
proof (induction cs)
  case Nil
  show ?case by (simp add: find_all_desc_def clean_forest_def)
next
  case (Cons c cs)
  let ?S = "clean_links_step cwd url"
  have dc: "distinct (tag_ids c)" and dcs: "distinct (forest_ids cs)"
    and disj: "set (tag_ids c) \<inter> set (forest_ids cs) = {}"
    using Cons.prems(2) by (simp_all add: forest_ids_Cons)
  have one: "fold ?S (find_all_in link_filter c) [c] = clean_node cwd url c"
    using Cons.prems(1) dc by simp
  have rest: "fold ?S (find_all_desc link_filter cs) cs = clean_forest cwd url cs"
    using Cons.IH Cons.prems(1) dcs by simp
  have l: "ident ` set (find_all_in link_filter c) \<inter> set (forest_ids cs) = {}"
    using find_all_in_ids[of link_filter c] disj by blast
  have r: "ident ` set (find_all_desc link_filter cs) \<inter> set (forest_ids (clean_node cwd url c)) = {}"
    using find_all_desc_ids[of link_filter cs] clean_node_ids[of cwd url c] disj by blast
  have "fold ?S (find_all_desc link_filter (c # cs)) (c # cs) =
        fold ?S (find_all_desc link_filter cs) (fold ?S (find_all_in link_filter c) ([c] @ cs))"
    by (simp add: find_all_desc_Cons)
  also have "\<dots> = fold ?S (find_all_desc link_filter cs) (clean_node cwd url c @ cs)"
    using fold_step_left[OF l, of cwd url "[c]"] one by simp
  also have "\<dots> = clean_node cwd url c @ fold ?S (find_all_desc link_filter cs) cs"
    using fold_step_right[OF r] by simp
  finally show ?case using rest by (simp add: clean_forest_Cons)
qed

lemma fold_clean_node:
  "distinct (tag_ids n) \<Longrightarrow>
   fold (clean_links_step cwd url) (find_all_in link_filter n) [n] = clean_node cwd url n"
proof (induction n)
  case (NavigableString s)
  show ?case by simp
next
  case (Tag j nm as cs)
  let ?S = "clean_links_step cwd url"
  let ?ts = "find_all_desc link_filter cs"
  have dcs: "distinct (forest_ids cs)" and j: "j \<notin> set (forest_ids cs)"
    using Tag.prems by (simp_all add: forest_ids_def)
  have kids: "fold ?S ?ts cs = clean_forest cwd url cs"
    using Tag.IH dcs by (intro fold_clean_forest_aux) auto
  have jts: "j \<notin> ident ` set ?ts"
    using find_all_desc_ids[of link_filter cs] j by blast
  have fa: "find_all_in link_filter (Tag j nm as cs) =
            (if link_filter (Tag j nm as cs) then [Tag j nm as cs] else []) @ ?ts"
    by (simp add: find_all_desc_def)
  show ?case
  proof (cases "link_filter (Tag j nm as cs)")
    case False
    then have lf: "\<not> link_filter (Tag j nm as (clean_forest cwd url cs))"
      by (simp add: link_filter_def)
    show ?thesis
      using False fa fold_step_under[OF jts, of cwd url nm as cs] kids
      by (simp add: clean_forest_def)
  next
    case True
    have first: "?S (Tag j nm as cs) [Tag j nm as cs] = clean_tag cwd url (Tag j nm as cs)"
      by (simp add: clean_links_step_def modify_forest_def)
    have goal: "clean_node cwd url (Tag j nm as cs) =
                clean_tag cwd url (Tag j nm as (clean_forest cwd url cs))"
      using True by (simp add: clean_forest_def)
    from clean_tag_shape[of cwd url j nm as]
    show ?thesis
    proof
      assume "\<exists>as'. \<forall>cs. clean_tag cwd url (Tag j nm as cs) = [Tag j nm as' cs]"
      then obtain as' where as': "\<And>cs. clean_tag cwd url (Tag j nm as cs) = [Tag j nm as' cs]"
        by blast
      show ?thesis
        using True fa first as' fold_step_under[OF jts, of cwd url nm as' cs] kids goal
        by simp
    next
      assume u: "\<forall>cs. clean_tag cwd url (Tag j nm as cs) = cs"
      show ?thesis
        using True fa first u kids goal by simp
    qed
  qed
qed

lemma clean_links_eq:
  assumes "distinct (forest_ids (contents body))"
  shows "clean_links cwd body url = clean_forest cwd url (contents body)"
proof -
  have "clean_links cwd body url =
        fold (clean_links_step cwd url) (find_all_desc link_filter (contents body)) (contents body)"
    by (simp add: clean_links_def)
  also have "\<dots> = clean_forest cwd url (contents body)"
    using assms fold_clean_node by (intro fold_clean_forest_aux) auto
  finally show ?thesis .
qed

section \<open>\<open>clean_links\<close> on the serial form\<close>

lemma clean_events_append:
  "clean_events cwd url (xs @ ys) = clean_events cwd url xs @ clean_events cwd url ys"
  by (simp add: clean_events_def)

lemma clean_events_Nil: "clean_events cwd url [] = []"
  by (simp add: clean_events_def)

lemma clean_events_Cons:
  "clean_events cwd url (e # es) = clean_event cwd url e @ clean_events cwd url es"
  by (simp add: clean_events_def)

lemma events_forest_append: "events_forest (xs @ ys) = events_forest xs @ events_forest ys"
  by (simp add: events_forest_def)

lemma events_forest_Cons: "events_forest (x # xs) = events x @ events_forest xs"
  by (simp add: events_forest_def)

lemma events_forest_Nil: "events_forest [] = []"
  by (simp add: events_forest_def)

lemma events_clean_forest_aux:
  "(\<And>c. c \<in> set cs \<Longrightarrow> events_forest (clean_node cwd url c) = clean_events cwd url (events c))
   \<Longrightarrow> events_forest (clean_forest cwd url cs) = clean_events cwd url (events_forest cs)"
  by (induction cs)
     (simp_all add: clean_forest_def events_forest_def clean_events_def)

lemma events_clean_node:
  "events_forest (clean_node cwd url m) = clean_events cwd url (events m)"
proof (induction m)
  case (NavigableString s)
  show ?case by (simp add: events_forest_def clean_events_def)
next
  case (Tag i n as cs)
  have kids: "events_forest (clean_forest cwd url cs) = clean_events cwd url (events_forest cs)"
    using Tag by (intro events_clean_forest_aux) auto
  have ev: "clean_events cwd url (events (Tag i n as cs)) =
        clean_event cwd url (StartTag i n as) @ clean_events cwd url (events_forest cs)
        @ clean_event cwd url (EndTag i n as)"
    by (simp add: clean_events_def events_forest_def)
  show ?case
  proof (cases "link_filter (Tag i n as cs)")
    case False
    then have "link_action cwd url n as = Some as"
      by (auto simp: link_filter_def link_action_def split: option.splits)
    then show ?thesis using False kids ev
      by (simp add: events_forest_def clean_forest_def)
  next
    case True
    then obtain h where h: "map_of as ''href'' = Some h" "href_re_search h" "n = ''a'' \<or> n = ''area''"
      by (auto simp: link_filter_def split: option.splits)
    show ?thesis
    proof (cases "in_documentation cwd url h")
      case True
      with h have "link_action cwd url n as = Some (AList.update ''href'' (last (split_on CHR ''/'' h)) as)"
        by (simp add: link_action_def)
      then show ?thesis using \<open>link_filter (Tag i n as cs)\<close> kids ev h True
        by (simp add: events_forest_def clean_forest_def clean_tag_def)
    next
      case False
      with h have "link_action cwd url n as = None"
        by (simp add: link_action_def)
      then show ?thesis using \<open>link_filter (Tag i n as cs)\<close> kids ev h False
        by (simp add: clean_forest_def clean_tag_def)
    qed
  qed
qed

lemma events_clean_forest:
  "events_forest (clean_forest cwd url ns) = clean_events cwd url (events_forest ns)"
  using events_clean_node by (intro events_clean_forest_aux) auto

lemma events_clean_links:
  "distinct (forest_ids (contents body)) \<Longrightarrow>
   events_forest (clean_links cwd body url) = clean_events cwd url (events_forest (contents body))"
  by (simp add: clean_links_eq events_clean_forest)

lemma start_ids_append: "start_ids (xs @ ys) = start_ids xs @ start_ids ys"
  by (induction xs rule: start_ids.induct) simp_all

lemma start_ids_events: "start_ids (events m) = tag_ids m"
proof (induction m)
  case (NavigableString s)
  show ?case by simp
next
  case (Tag i n as cs)
  have "start_ids (concat (map events cs)) = concat (map tag_ids cs)"
    using Tag by (induction cs) (simp_all add: start_ids_append)
  then show ?case by (simp add: start_ids_append)
qed

lemma start_ids_events_forest: "start_ids (events_forest ns) = forest_ids ns"
  by (induction ns) (simp_all add: events_forest_def forest_ids_def start_ids_append start_ids_events)

lemma start_ids_clean_event: "set (start_ids (clean_event cwd url e)) \<subseteq> set (start_ids [e])"
  by (cases e) (auto split: option.splits)

lemma start_ids_clean_events: "set (start_ids (clean_events cwd url es)) \<subseteq> set (start_ids es)"
proof (induction es)
  case Nil
  show ?case by (simp add: clean_events_def)
next
  case (Cons e es)
  have "start_ids (e # es) = start_ids [e] @ start_ids es"
    using start_ids_append[of "[e]" es] by simp
  then show ?case
    using Cons start_ids_clean_event[of cwd url e]
    by (auto simp: clean_events_Cons start_ids_append)
qed

lemma data_of_append: "data_of (xs @ ys) = data_of xs @ data_of ys"
  by (induction xs rule: data_of.induct) simp_all

lemma data_of_clean_events: "data_of (clean_events cwd url es) = data_of es"
proof (induction es)
  case Nil
  show ?case by (simp add: clean_events_def)
next
  case (Cons e es)
  then show ?case
    by (cases e) (auto simp: clean_events_Cons data_of_append split: option.splits)
qed

section \<open>The link rewriter\<close>

lemma dirname_module_url:
  "dirname ''https://doc-snapshots.qt.io/qtforpython/PySide2/QtCore/index.html''
     = ''https://doc-snapshots.qt.io/qtforpython/PySide2/QtCore''"
  by (simp add: dirname_def rstrip_def)

lemmas path_eval = resolved_def abspath_def path_join_def startswith_def endswith_def
  normpath_def normpath_step_def dirname_module_url

lemma resolved_directory_link:
  "resolved ''/home/user'' ''https://doc-snapshots.qt.io/qtforpython/PySide2/QtCore/index.html''
     ''../QtGui/''
   = ''/home/user/https:/doc-snapshots.qt.io/qtforpython/PySide2/QtGui''"
  by (simp add: path_eval)

lemma resolved_page_link:
  "resolved ''/home/user'' ''https://doc-snapshots.qt.io/qtforpython/PySide2/QtCore/index.html''
     ''../QtGui/QColor.html''
   = ''/home/user/https:/doc-snapshots.qt.io/qtforpython/PySide2/QtGui/QColor.html''"
  by (simp add: path_eval)

lemma resolved_outside_link:
  "resolved ''/home/user'' ''https://doc-snapshots.qt.io/qtforpython/PySide2/QtCore/index.html''
     ''../../overviews/qtcore.html''
   = ''/home/user/https:/doc-snapshots.qt.io/qtforpython/overviews/qtcore.html''"
  by (simp add: path_eval)

lemma resolved_subdirectory_link:
  "resolved ''/home/user'' ''https://doc-snapshots.qt.io/qtforpython/PySide2/QtCore/index.html''
     ''qt/index.html''
   = ''/home/user/https:/doc-snapshots.qt.io/qtforpython/PySide2/QtCore/qt/index.html''"
  by (simp add: path_eval)

lemma in_documentation_directory_link:
  "in_documentation ''/home/user''
     ''https://doc-snapshots.qt.io/qtforpython/PySide2/QtCore/index.html'' ''../QtGui/''"
  by (simp add: in_documentation_def resolved_directory_link startswith_def)

lemma in_documentation_page_link:
  "in_documentation ''/home/user''
     ''https://doc-snapshots.qt.io/qtforpython/PySide2/QtCore/index.html'' ''../QtGui/QColor.html''"
  by (simp add: in_documentation_def resolved_page_link startswith_def)

lemma in_documentation_outside_link:
  "\<not> in_documentation ''/home/user''
     ''https://doc-snapshots.qt.io/qtforpython/PySide2/QtCore/index.html'' ''../../overviews/qtcore.html''"
  by (simp add: in_documentation_def resolved_outside_link startswith_def)

lemma in_documentation_subdirectory_link:
  "in_documentation ''/home/user''
     ''https://doc-snapshots.qt.io/qtforpython/PySide2/QtCore/index.html'' ''qt/index.html''"
  by (simp add: in_documentation_def resolved_subdirectory_link startswith_def)

lemma resolved_intro_link:
  "resolved ''/home/user'' ''https://doc-snapshots.qt.io/qtforpython/PySide2/QtCore/index.html''
     ''../../overviews/PySide2-intro.html''
   = ''/home/user/https:/doc-snapshots.qt.io/qtforpython/overviews/PySide2-intro.html''"
  by (simp add: path_eval)

lemma documentation_root_home:
  "documentation_root ''/home/user'' = ''/home/user/https:/doc-snapshots.qt.io/qtforpython/PySide2''"
  by (simp add: documentation_root_def path_eval)

lemma in_documentation_intro_link:
  "in_documentation ''/home/user''
     ''https://doc-snapshots.qt.io/qtforpython/PySide2/QtCore/index.html''
     ''../../overviews/PySide2-intro.html''"
  by (simp add: in_documentation_def resolved_intro_link startswith_def)

lemmas clean_links_eval = clean_links_def find_all_desc_def link_filter_def href_re_search_def
  clean_links_step_def modify_forest_def clean_tag_def

text \<open>
  Claim C2 as stated fails when the link ends in a slash (or in \<open>.\<close> or \<open>..\<close>): the new
  \<open>href\<close> is the text after the last slash of the old one, here the empty string, while the
  resolved target ends in \<open>QtGui\<close>.
\<close>

theorem clean_links_directory_link:
  "startswith ''../QtGui/'' ''../''
   \<and> in_documentation ''/home/user''
       ''https://doc-snapshots.qt.io/qtforpython/PySide2/QtCore/index.html'' ''../QtGui/''
   \<and> clean_links ''/home/user''
       (Tag 0 ''div'' [(''class'', ''bodywrapper'')]
          [Tag 1 ''a'' [(''href'', ''../QtGui/'')] [NavigableString ''QtGui'']])
       ''https://doc-snapshots.qt.io/qtforpython/PySide2/QtCore/index.html''
     = [Tag 1 ''a'' [(''href'', [])] [NavigableString ''QtGui'']]
   \<and> last (split_on CHR ''/'' (resolved ''/home/user''
       ''https://doc-snapshots.qt.io/qtforpython/PySide2/QtCore/index.html'' ''../QtGui/''))
     = ''QtGui''
   \<and> [] \<noteq> ''QtGui''"
  by (simp add: clean_links_eval in_documentation_directory_link resolved_directory_link
      startswith_def)

text \<open>
  Claim C10 at a link that does not begin with \<open>../\<close>: any two characters before a slash
  satisfy the pattern \<open>^../\<close>, so the link to a page in a subdirectory is rewritten.
\<close>

theorem clean_links_subdirectory_link:
  "\<not> startswith ''qt/index.html'' ''../''
   \<and> clean_links ''/home/user''
       (Tag 0 ''div'' [(''class'', ''bodywrapper'')]
          [Tag 1 ''a'' [(''href'', ''qt/index.html'')] [NavigableString ''Qt'']])
       ''https://doc-snapshots.qt.io/qtforpython/PySide2/QtCore/index.html''
     = [Tag 1 ''a'' [(''href'', ''index.html'')] [NavigableString ''Qt'']]"
  by (simp add: clean_links_eval in_documentation_subdirectory_link startswith_def)

text \<open>
  Claim C2, amended. An \<open>a\<close> or \<open>area\<close> tag whose \<open>href\<close> begins with \<open>../\<close> and resolves
  inside the documentation stays where it is in the page, and its \<open>href\<close> becomes the text
  after the last slash of the old \<open>href\<close>. That text has no slash in it, and it is the last
  segment of the resolved target unless it is empty, \<open>.\<close> or \<open>..\<close>.
\<close>

theorem clean_links_flattens:
  assumes "distinct (forest_ids (contents body))"
    and "events_forest (contents body) = pre @ StartTag i n as # post"
    and "n = ''a'' \<or> n = ''area''"
    and "map_of as ''href'' = Some h"
    and "startswith h ''../''"
    and "in_documentation cwd current_url h"
  shows "events_forest (clean_links cwd body current_url) =
           clean_events cwd current_url pre
           @ StartTag i n (AList.update ''href'' (last (split_on CHR ''/'' h)) as)
           # clean_events cwd current_url post
       \<and> CHR ''/'' \<notin> set (last (split_on CHR ''/'' h))
       \<and> (last (split_on CHR ''/'' h) \<notin> {[], ''.'', ''..''} \<longrightarrow>
            last (split_on CHR ''/'' h) = last (split_on CHR ''/'' (resolved cwd current_url h)))"
proof -
  have act: "link_action cwd current_url n as =
      Some (AList.update ''href'' (last (split_on CHR ''/'' h)) as)"
    using assms(3-6) parent_href_matches by (simp add: link_action_def)
  have "events_forest (clean_links cwd body current_url) =
      clean_events cwd current_url (pre @ StartTag i n as # post)"
    using assms(1,2) by (simp add: events_clean_links)
  then have one: "events_forest (clean_links cwd body current_url) =
           clean_events cwd current_url pre
           @ StartTag i n (AList.update ''href'' (last (split_on CHR ''/'' h)) as)
           # clean_events cwd current_url post"
    using act by (simp add: clean_events_append clean_events_Cons)
  have three: "last (split_on CHR ''/'' h) \<notin> {[], ''.'', ''..''} \<longrightarrow>
      last (split_on CHR ''/'' h) = last (split_on CHR ''/'' (resolved cwd current_url h))"
    using last_segment_resolved[of "last (split_on CHR ''/'' h)" h cwd current_url] by auto
  from one three show ?thesis using last_split_on_no_sep by blast
qed

text \<open>
  Claim C3 as stated fails: the script does not ask whether the target lies outside the
  documentation, it asks whether the text \<open>PySide2\<close> occurs anywhere in the resolved path.
  A link to a page outside the directory \<open>PySide2\<close> whose file name holds that text is
  kept, and its \<open>href\<close> is cut down to the file name.
\<close>

theorem clean_links_keeps_outside_link:
  "startswith ''../../overviews/PySide2-intro.html'' ''../''
   \<and> resolved ''/home/user''
       ''https://doc-snapshots.qt.io/qtforpython/PySide2/QtCore/index.html''
       ''../../overviews/PySide2-intro.html''
     = ''/home/user/https:/doc-snapshots.qt.io/qtforpython/overviews/PySide2-intro.html''
   \<and> documentation_root ''/home/user''
     = ''/home/user/https:/doc-snapshots.qt.io/qtforpython/PySide2''
   \<and> \<not> spec_inside_documentation ''/home/user''
       ''https://doc-snapshots.qt.io/qtforpython/PySide2/QtCore/index.html''
       ''../../overviews/PySide2-intro.html''
   \<and> events_forest (clean_links ''/home/user''
       (Tag 0 ''div'' [(''class'', ''bodywrapper'')]
          [NavigableString ''See '',
           Tag 1 ''a'' [(''href'', ''../../overviews/PySide2-intro.html'')]
             [NavigableString ''the overview''],
           NavigableString ''.''])
       ''https://doc-snapshots.qt.io/qtforpython/PySide2/QtCore/index.html'')
     = [Data ''See '', StartTag 1 ''a'' [(''href'', ''PySide2-intro.html'')],
        Data ''the overview'', EndTag 1 ''a'' [(''href'', ''PySide2-intro.html'')], Data ''.'']"
proof -
  have s: "startswith ''../../overviews/PySide2-intro.html'' ''../''"
    by (simp add: startswith_def)
  have o: "\<not> spec_inside_documentation ''/home/user''
       ''https://doc-snapshots.qt.io/qtforpython/PySide2/QtCore/index.html''
       ''../../overviews/PySide2-intro.html''"
    by (simp add: spec_inside_documentation_def resolved_intro_link documentation_root_home
        startswith_def)
  have c: "events_forest (clean_links ''/home/user''
       (Tag 0 ''div'' [(''class'', ''bodywrapper'')]
          [NavigableString ''See '',
           Tag 1 ''a'' [(''href'', ''../../overviews/PySide2-intro.html'')]
             [NavigableString ''the overview''],
           NavigableString ''.''])
       ''https://doc-snapshots.qt.io/qtforpython/PySide2/QtCore/index.html'')
     = [Data ''See '', StartTag 1 ''a'' [(''href'', ''PySide2-intro.html'')],
        Data ''the overview'', EndTag 1 ''a'' [(''href'', ''PySide2-intro.html'')], Data ''.'']"
    by (simp add: clean_links_eval in_documentation_intro_link events_forest_def)
  from s resolved_intro_link documentation_root_home o c show ?thesis by (intro conjI)
qed

text \<open>
  Claim C3, amended. An \<open>a\<close> or \<open>area\<close> tag whose \<open>href\<close> begins with \<open>../\<close> and whose
  resolved path does not hold the text \<open>PySide2\<close> is gone from the page: what stood before
  it and what stood after its start tag follow each other, no tag of the result has its
  identity, and the pieces of text of the page are the same, in the same order. The target
  of such a link lies outside the documentation.
\<close>

theorem clean_links_unwraps:
  assumes "distinct (forest_ids (contents body))"
    and "events_forest (contents body) = pre @ StartTag i n as # post"
    and "n = ''a'' \<or> n = ''area''"
    and "map_of as ''href'' = Some h"
    and "startswith h ''../''"
    and "\<not> contains (abspath cwd (dirname current_url @ ''/'' @ h)) ''PySide2''"
  shows "events_forest (clean_links cwd body current_url) =
           clean_events cwd current_url pre @ clean_events cwd current_url post
       \<and> i \<notin> set (start_ids (events_forest (clean_links cwd body current_url)))
       \<and> data_of (events_forest (clean_links cwd body current_url)) =
           data_of (events_forest (contents body))
       \<and> \<not> spec_inside_documentation cwd current_url h"
proof -
  have nd: "\<not> in_documentation cwd current_url h"
    using assms(6) by (simp add: in_documentation_def resolved_def)
  have four: "\<not> spec_inside_documentation cwd current_url h"
    using nd spec_inside_in_documentation by blast
  have act: "link_action cwd current_url n as = None"
    using assms(3-5) nd parent_href_matches by (simp add: link_action_def)
  have all: "events_forest (clean_links cwd body current_url) =
      clean_events cwd current_url (events_forest (contents body))"
    using assms(1) by (simp add: events_clean_links)
  then have one: "events_forest (clean_links cwd body current_url) =
           clean_events cwd current_url pre @ clean_events cwd current_url post"
    using act assms(2) by (simp add: clean_events_append clean_events_Cons)
  have "distinct (start_ids (pre @ StartTag i n as # post))"
    using assms(1,2) start_ids_events_forest[of "contents body"] by simp
  then have "i \<notin> set (start_ids pre)" "i \<notin> set (start_ids post)"
    by (simp_all add: start_ids_append)
  then have two: "i \<notin> set (start_ids (events_forest (clean_links cwd body current_url)))"
    using one start_ids_clean_events[of cwd current_url pre]
      start_ids_clean_events[of cwd current_url post]
    by (auto simp: start_ids_append)
  have three: "data_of (events_forest (clean_links cwd body current_url)) =
           data_of (events_forest (contents body))"
    using all by (simp add: data_of_clean_events)
  from one two three four show ?thesis by blast
qed

theorem clean_links_flattens_witness:
  "events_forest (clean_links ''/home/user''
       (Tag 0 ''div'' [(''class'', ''bodywrapper'')]
          [NavigableString ''See '',
           Tag 1 ''a'' [(''href'', ''../QtGui/QColor.html'')] [NavigableString ''QColor''],
           NavigableString ''.''])
       ''https://doc-snapshots.qt.io/qtforpython/PySide2/QtCore/index.html'')
     = [Data ''See '', StartTag 1 ''a'' [(''href'', ''QColor.html'')], Data ''QColor'',
        EndTag 1 ''a'' [(''href'', ''QColor.html'')], Data ''.'']
   \<and> CHR ''/'' \<notin> set ''QColor.html''
   \<and> ''QColor.html'' = last (split_on CHR ''/'' (resolved ''/home/user''
       ''https://doc-snapshots.qt.io/qtforpython/PySide2/QtCore/index.html''
       ''../QtGui/QColor.html''))"
proof -
  let ?as = "[(''href'', ''../QtGui/QColor.html'')]"
  let ?body = "Tag 0 ''div'' [(''class'', ''bodywrapper'')]
          [NavigableString ''See '', Tag 1 ''a'' ?as [NavigableString ''QColor''],
           NavigableString ''.'']"
  have d: "distinct (forest_ids (contents ?body))" by (simp add: forest_ids_def)
  have e: "events_forest (contents ?body) =
      [Data ''See ''] @ StartTag 1 ''a'' ?as # [Data ''QColor'', EndTag 1 ''a'' ?as, Data ''.'']"
    by (simp add: events_forest_def)
  have n: "''a'' = ''a'' \<or> ''a'' = ''area''" by simp
  have h: "map_of ?as ''href'' = Some ''../QtGui/QColor.html''" by simp
  have s: "startswith ''../QtGui/QColor.html'' ''../''" by (simp add: startswith_def)
  from clean_links_flattens[OF d e n h s in_documentation_page_link]
  show ?thesis
    by (simp add: clean_events_def link_action_def href_re_search_def
        in_documentation_page_link)
qed

theorem clean_links_unwraps_witness:
  "events_forest (clean_links ''/home/user''
       (Tag 0 ''div'' [(''class'', ''bodywrapper'')]
          [NavigableString ''See '',
           Tag 1 ''a'' [(''href'', ''../../overviews/qtcore.html'')] [NavigableString ''Qt Core''],
           NavigableString ''.''])
       ''https://doc-snapshots.qt.io/qtforpython/PySide2/QtCore/index.html'')
     = [Data ''See '', Data ''Qt Core'', Data ''.'']
   \<and> 1 \<notin> set (start_ids [Data ''See '', Data ''Qt Core'', Data ''.''])
   \<and> data_of [Data ''See '', Data ''Qt Core'', Data ''.''] = [''See '', ''Qt Core'', ''.'']"
proof -
  let ?as = "[(''href'', ''../../overviews/qtcore.html'')]"
  let ?body = "Tag 0 ''div'' [(''class'', ''bodywrapper'')]
          [NavigableString ''See '', Tag 1 ''a'' ?as [NavigableString ''Qt Core''],
           NavigableString ''.'']"
  have d: "distinct (forest_ids (contents ?body))" by (simp add: forest_ids_def)
  have e: "events_forest (contents ?body) =
      [Data ''See ''] @ StartTag 1 ''a'' ?as # [Data ''Qt Core'', EndTag 1 ''a'' ?as, Data ''.'']"
    by (simp add: events_forest_def)
  have n: "''a'' = ''a'' \<or> ''a'' = ''area''" by simp
  have h: "map_of ?as ''href'' = Some ''../../overviews/qtcore.html''" by simp
  have s: "startswith ''../../overviews/qtcore.html'' ''../''" by (simp add: startswith_def)
  have p: "\<not> contains (abspath ''/home/user''
      (dirname ''https://doc-snapshots.qt.io/qtforpython/PySide2/QtCore/index.html'' @ ''/''
       @ ''../../overviews/qtcore.html'')) ''PySide2''"
    using in_documentation_outside_link unfolding in_documentation_def resolved_def .
  from clean_links_unwraps[OF d e n h s p]
  show ?thesis
    by (simp add: clean_events_def link_action_def href_re_search_def
        in_documentation_outside_link)
qed

section \<open>The index store\<close>

lemma insert_or_ignore_distinct:
  "distinct (map snd rows) \<Longrightarrow> distinct (map snd (insert_or_ignore rows e))"
  by (auto simp: insert_or_ignore_def)

lemma insert_or_ignore_set:
  "snd ` set (insert_or_ignore rows e) = insert e (snd ` set rows)"
  by (auto simp: insert_or_ignore_def)

lemma insertions_table:
  "searchIndex s = Some rows \<Longrightarrow>
   \<exists>rows'. insertions es s = (Inr (), s\<lparr>searchIndex := Some rows'\<rparr>) \<and>
      snd ` set rows' = set es \<union> snd ` set rows \<and>
      (distinct (map snd rows) \<longrightarrow> distinct (map snd rows'))"
proof (induction es arbitrary: s rows)
  case Nil
  then show ?case by (cases s) auto
next
  case (Cons e es)
  obtain n t p where e: "e = (n, t, p)" by (cases e)
  let ?s = "s\<lparr>searchIndex := Some (insert_or_ignore rows e)\<rparr>"
  have step: "insert_entry n t p s = (Inr (), ?s)"
    using Cons.prems e by (simp add: insert_entry_def)
  have "searchIndex ?s = Some (insert_or_ignore rows e)" by simp
  from Cons.IH[OF this] obtain rows' where
    r: "insertions es ?s = (Inr (), ?s\<lparr>searchIndex := Some rows'\<rparr>)"
       "snd ` set rows' = set es \<union> snd ` set (insert_or_ignore rows e)"
       "distinct (map snd (insert_or_ignore rows e)) \<longrightarrow> distinct (map snd rows')"
    by blast
  show ?case
    using r step e insert_or_ignore_distinct[of rows e]
    by (intro exI[of _ rows']) (auto simp: insert_or_ignore_set)
qed

lemma count_distinct:
  "distinct (map snd rows) \<Longrightarrow> e \<in> snd ` set rows \<Longrightarrow> length (filter (\<lambda>r. snd r = e) rows) = 1"
proof (induction rows)
  case Nil
  then show ?case by simp
next
  case (Cons r rows)
  show ?case
  proof (cases "snd r = e")
    case True
    then have "e \<notin> snd ` set rows" using Cons.prems(1) by auto
    then have "filter (\<lambda>r. snd r = e) rows = []" by (auto simp: filter_empty_conv)
    with True show ?thesis by simp
  next
    case False
    then show ?thesis using Cons by auto
  qed
qed

text \<open>
  Claim C6. After \<open>init_database\<close> and any sequence of insertions, no insertion has raised,
  and for every triple that was inserted, once or several times, the table holds exactly one
  row; inserting it again raises nothing and leaves the whole state as it is.
\<close>

theorem insert_entry_idempotent:
  assumes "(name, entry_type, path) \<in> set es"
    and "s = snd (insertions es (snd (init_database s0)))"
  shows "fst (insertions es (snd (init_database s0))) = Inr ()
       \<and> insert_entry name entry_type path s = (Inr (), s)
       \<and> length (rows_for (name, entry_type, path) s) = 1"
proof -
  let ?i = "snd (init_database s0)"
  have "searchIndex ?i = Some []" by (simp add: init_database_def)
  from insertions_table[OF this, of es] obtain rows' where
    r: "insertions es ?i = (Inr (), ?i\<lparr>searchIndex := Some rows'\<rparr>)"
       "snd ` set rows' = set es" "distinct (map snd rows')"
    by auto
  have s: "s = ?i\<lparr>searchIndex := Some rows'\<rparr>" using assms(2) r(1) by simp
  have mem: "(name, entry_type, path) \<in> snd ` set rows'" using r(2) assms(1) by simp
  have "insert_or_ignore rows' (name, entry_type, path) = rows'"
    using mem by (simp add: insert_or_ignore_def)
  then have "insert_entry name entry_type path s = (Inr (), s)"
    using s by (simp add: insert_entry_def)
  moreover have "length (rows_for (name, entry_type, path) s) = 1"
    using s count_distinct[OF r(3) mem] by (simp add: rows_for_def)
  ultimately show ?thesis using r(1) by simp
qed

theorem insert_entry_idempotent_witness:
  "insertions [(''QtCore'', ''Module'', ''QtCore-index.html''), (''QtCore'', ''Module'', ''QtCore-index.html'')]
     (snd (init_database \<lparr>searchIndex = None, files = Map.empty, stdout = []\<rparr>))
   = (Inr (), \<lparr>searchIndex = Some [(1, ''QtCore'', ''Module'', ''QtCore-index.html'')],
        files = Map.empty, stdout = []\<rparr>)
   \<and> insert_entry ''QtCore'' ''Module'' ''QtCore-index.html''
       \<lparr>searchIndex = Some [(1, ''QtCore'', ''Module'', ''QtCore-index.html'')],
        files = Map.empty, stdout = []\<rparr>
     = (Inr (), \<lparr>searchIndex = Some [(1, ''QtCore'', ''Module'', ''QtCore-index.html'')],
        files = Map.empty, stdout = []\<rparr>)
   \<and> length (rows_for (''QtCore'', ''Module'', ''QtCore-index.html'')
       \<lparr>searchIndex = Some [(1, ''QtCore'', ''Module'', ''QtCore-index.html'')],
        files = Map.empty, stdout = []\<rparr>) = 1"
proof -
  let ?e = "(''QtCore'', ''Module'', ''QtCore-index.html'')"
  let ?init = "\<lparr>searchIndex = None, files = Map.empty, stdout = []\<rparr>"
  let ?s = "\<lparr>searchIndex = Some [(1::nat, ?e)], files = Map.empty, stdout = []\<rparr>"
  have run: "insertions [?e, ?e] (snd (init_database ?init)) = (Inr (), ?s)"
    by (simp add: init_database_def insert_entry_def insert_or_ignore_def next_rowid_def)
  have mem: "(''QtCore'', ''Module'', ''QtCore-index.html'') \<in> set [?e, ?e]" by simp
  have seq: "?s = snd (insertions [?e, ?e] (snd (init_database ?init)))"
    using run by simp
  from insert_entry_idempotent[OF mem seq]
  have c2: "insert_entry ''QtCore'' ''Module'' ''QtCore-index.html'' ?s = (Inr (), ?s)"
    and c3: "length (rows_for ?e ?s) = 1"
    by blast+
  show ?thesis by (intro conjI) (rule run, rule c2, rule c3)
qed

section \<open>The fetcher and the page renderer\<close>

lemma save_page_eq:
  "save_page env file_name title html show_exists_error s =
     write_text env file_name (HTML_TEMPLATE title html)
       (if show_exists_error \<and> (file_name \<in> dom (files s) \<or> isdir env file_name)
        then s\<lparr>stdout := stdout s @ [red (file_name @ '' - This page already exists...'')]\<rparr>
        else s)"
  by (auto simp: save_page_def bind_run_def path_exists_def print_def ret_def)

text \<open>
  Claim C7 as stated fails: \<open>do_request\<close> catches \<open>HTTPError\<close> only, so any other failure of
  the transport reaches the caller as an exception, and so does the exception of the parser
  on a page that was retrieved.
\<close>

theorem do_request_raises:
  "do_request
     \<lparr>getcwd = ''/home/user'', urlopen = (\<lambda>url. OtherError),
      parse = (\<lambda>markup. Some (NavigableString markup)), render = (\<lambda>t. []),
      re_search = (\<lambda>pattern s. contains s pattern), isdir = (\<lambda>file_name. False),
      open_w = (\<lambda>file_name. None), encodes = (\<lambda>content. True)\<rparr>
     ''https://doc-snapshots.qt.io/qtforpython/''
     \<lparr>searchIndex = None, files = Map.empty, stdout = []\<rparr>
   = (Inl URLError, \<lparr>searchIndex = None, files = Map.empty, stdout = []\<rparr>)
   \<and> do_request
     \<lparr>getcwd = ''/home/user'', urlopen = (\<lambda>url. Response ''<![foo]>''),
      parse = (\<lambda>markup. if markup = ''<![foo]>'' then None else Some (NavigableString markup)),
      render = (\<lambda>t. []),
      re_search = (\<lambda>pattern s. contains s pattern), isdir = (\<lambda>file_name. False),
      open_w = (\<lambda>file_name. None), encodes = (\<lambda>content. True)\<rparr>
     ''https://doc-snapshots.qt.io/qtforpython/''
     \<lparr>searchIndex = None, files = Map.empty, stdout = []\<rparr>
   = (Inl ParserRejectedMarkup, \<lparr>searchIndex = None, files = Map.empty, stdout = []\<rparr>)"
  by (simp add: do_request_def raise_def)

text \<open>
  Claim C7, amended. \<open>do_request\<close> leaves the state as it is. It returns the parsed document
  when the retrieval succeeds and the parser accepts the markup, and \<open>None\<close> when the
  retrieval fails with an HTTP error status. It raises exactly when the retrieval fails in
  another way or the parser rejects the markup that was retrieved; it returns \<open>None\<close>
  exactly when the retrieval fails with an HTTP error status.
\<close>

theorem do_request_result:
  "snd (do_request env url s) = s
   \<and> (isl (fst (do_request env url s)) \<longleftrightarrow>
        (urlopen env url = OtherError
         \<or> (\<exists>html. urlopen env url = Response html \<and> parse env html = None)))
   \<and> (fst (do_request env url s) = Inr None \<longleftrightarrow> (\<exists>code. urlopen env url = HTTPError code))
   \<and> (\<forall>document. fst (do_request env url s) = Inr (Some document) \<longleftrightarrow>
        (\<exists>html. urlopen env url = Response html \<and> parse env html = Some document))
   \<and> (fst (do_request env url s) = Inl URLError \<longleftrightarrow> urlopen env url = OtherError)
   \<and> (fst (do_request env url s) = Inl ParserRejectedMarkup \<longleftrightarrow>
        (\<exists>html. urlopen env url = Response html \<and> parse env html = None))"
  by (cases "urlopen env url")
     (auto simp: do_request_def ret_def raise_def split: option.splits)








section \<open>Runs whose result depends on the index only\<close>

lemma db_onlyD:
  "db_only m \<Longrightarrow> searchIndex s = searchIndex t \<Longrightarrow>
   fst (m s) = fst (m t) \<and> searchIndex (snd (m s)) = searchIndex (snd (m t))"
  unfolding db_only_def by blast

lemma db_only_ret [db_only_intros]: "db_only (ret x)"
  by (simp add: db_only_def ret_def)

lemma db_only_raise [db_only_intros]: "db_only (raise e)"
  by (simp add: db_only_def raise_def)

lemma db_only_bind [db_only_intros]:
  assumes "db_only m" and "\<And>x. db_only (f x)"
  shows "db_only (bind_run m f)"
  unfolding db_only_def
proof (intro allI impI)
  fix s t :: state
  assume eq: "searchIndex s = searchIndex t"
  obtain r s' where ms: "m s = (r, s')" by (cases "m s")
  obtain r' t' where mt: "m t = (r', t')" by (cases "m t")
  from assms(1) eq have "fst (m s) = fst (m t) \<and> searchIndex (snd (m s)) = searchIndex (snd (m t))"
    by (rule db_onlyD)
  with ms mt have r: "r = r'" and db: "searchIndex s' = searchIndex t'"
    by simp_all
  show "fst (bind_run m f s) = fst (bind_run m f t) \<and>
        searchIndex (snd (bind_run m f s)) = searchIndex (snd (bind_run m f t))"
  proof (cases r)
    case (Inl e)
    then show ?thesis using ms mt r db by (simp add: bind_run_def)
  next
    case (Inr x)
    from assms(2)[of x] db
    have "fst (f x s') = fst (f x t') \<and> searchIndex (snd (f x s')) = searchIndex (snd (f x t'))"
      by (rule db_onlyD)
    then show ?thesis using Inr ms mt r by (simp add: bind_run_def)
  qed
qed

lemma db_only_if [db_only_intros]:
  "db_only a \<Longrightarrow> db_only b \<Longrightarrow> db_only (if c then a else b)"
  by simp

lemma db_only_case_option [db_only_intros]:
  "db_only a \<Longrightarrow> (\<And>y. db_only (b y)) \<Longrightarrow> db_only (case x of None \<Rightarrow> a | Some y \<Rightarrow> b y)"
  by (cases x) simp_all

lemma db_only_for_each [db_only_intros]:
  assumes "\<And>x a. db_only (f x a)"
  shows "db_only (for_each f xs acc)"
proof (induction xs arbitrary: acc)
  case Nil
  show ?case by (simp add: db_only_ret)
next
  case (Cons x xs)
  show ?case using assms Cons by (simp add: db_only_bind)
qed

lemma db_only_print [db_only_intros]: "db_only (print line)"
  by (simp add: db_only_def print_def)

lemma db_only_or_raise [db_only_intros]: "db_only (or_raise x e)"
  by (cases x) (simp_all add: or_raise_def db_only_ret db_only_raise)

lemma db_only_first_or_raise [db_only_intros]: "db_only (first_or_raise xs e)"
  by (cases xs) (simp_all add: first_or_raise_def db_only_ret db_only_raise)

lemma db_only_write_file [db_only_intros]: "db_only (write_file env file_name content)"
  by (simp add: db_only_def write_file_def split: option.splits)

lemma db_only_write_text [db_only_intros]: "db_only (write_text env file_name content)"
  by (simp add: db_only_def write_text_def split: option.splits)

lemma db_only_insert_entry [db_only_intros]: "db_only (insert_entry name entry_type path)"
  by (auto simp: db_only_def insert_entry_def split: option.splits)

lemma db_only_do_request [db_only_intros]: "db_only (do_request env url)"
  by (cases "urlopen env url")
     (simp_all add: do_request_def db_only_ret db_only_raise split: option.splits)

lemma db_only_save_page [db_only_intros]:
  "db_only (save_page env file_name title html show_exists_error)"
  by (simp add: db_only_def save_page_eq write_text_def split: option.splits)

lemma db_only_download_file [db_only_intros]: "db_only (download_file env url file_name)"
  by (cases "urlopen env url")
     (simp_all add: download_file_def db_only_ret db_only_raise db_only_bind db_only_write_file)

lemma db_only_parse_main_page [db_only_intros]: "db_only (parse_main_page env)"
  unfolding parse_main_page_def Let_def by (intro db_only_intros)

lemma db_only_parse_module_index_page [db_only_intros]:
  "db_only (parse_module_index_page env module)"
  unfolding parse_module_index_page_def Let_def by (intro db_only_intros)

lemma db_only_strip_anchor [db_only_intros]: "db_only (strip_anchor link refs)"
  unfolding strip_anchor_def Let_def by (intro db_only_intros)

lemma db_only_download_image [db_only_intros]: "db_only (download_image env img refs)"
  unfolding download_image_def Let_def by (intro db_only_intros)

lemma db_only_insert_method [db_only_intros]:
  "db_only (insert_method module class_name file_path method u)"
  unfolding insert_method_def Let_def by (intro db_only_intros)

lemma db_only_save_class_page [db_only_intros]: "db_only (save_class_page env module class_name)"
  unfolding save_class_page_def Let_def by (intro db_only_intros)

lemma db_only_index_class_page [db_only_intros]: "db_only (index_class_page module class_name body)"
  unfolding index_class_page_def Let_def by (intro db_only_intros)

lemma db_only_parse_class_page [db_only_intros]: "db_only (parse_class_page env module class_name)"
  unfolding parse_class_page_def by (intro db_only_intros)

lemma db_only_class_step [db_only_intros]: "db_only (class_step env module_slug nb item u)"
  unfolding class_step_def by (intro db_only_intros)

lemma db_only_module_step [db_only_intros]: "db_only (module_step env module_tag modules_in_404)"
  unfolding module_step_def Let_def by (intro db_only_intros)


subsection \<open>Runs that leave the index alone\<close>

lemma db_kept_ret [db_kept_intros]: "db_kept (ret x)"
  by (simp add: db_kept_def ret_def)

lemma db_kept_raise [db_kept_intros]: "db_kept (raise e)"
  by (simp add: db_kept_def raise_def)

lemma db_keptD: "db_kept m \<Longrightarrow> searchIndex (snd (m s)) = searchIndex s"
  unfolding db_kept_def by blast

lemma db_kept_bind [db_kept_intros]:
  assumes "db_kept m" and "\<And>x. db_kept (f x)"
  shows "db_kept (bind_run m f)"
  unfolding db_kept_def
proof
  fix s :: state
  obtain r s' where ms: "m s = (r, s')" by (cases "m s")
  from db_keptD[OF assms(1), of s] ms have db: "searchIndex s' = searchIndex s" by simp
  show "searchIndex (snd (bind_run m f s)) = searchIndex s"
  proof (cases r)
    case (Inl e)
    then show ?thesis using ms db by (simp add: bind_run_def)
  next
    case (Inr x)
    from db_keptD[OF assms(2)[of x], of s'] db
    have "searchIndex (snd (f x s')) = searchIndex s" by simp
    then show ?thesis using Inr ms by (simp add: bind_run_def)
  qed
qed

lemma db_kept_if [db_kept_intros]:
  "db_kept a \<Longrightarrow> db_kept b \<Longrightarrow> db_kept (if c then a else b)"
  by simp

lemma db_kept_case_option [db_kept_intros]:
  "db_kept a \<Longrightarrow> (\<And>y. db_kept (b y)) \<Longrightarrow> db_kept (case x of None \<Rightarrow> a | Some y \<Rightarrow> b y)"
  by (cases x) simp_all

lemma db_kept_for_each [db_kept_intros]:
  assumes "\<And>x a. db_kept (f x a)"
  shows "db_kept (for_each f xs acc)"
proof (induction xs arbitrary: acc)
  case Nil
  show ?case by (simp add: db_kept_ret)
next
  case (Cons x xs)
  show ?case using assms Cons by (simp add: db_kept_bind)
qed

lemma db_kept_print [db_kept_intros]: "db_kept (print line)"
  by (simp add: db_kept_def print_def)

lemma db_kept_or_raise [db_kept_intros]: "db_kept (or_raise x e)"
  by (cases x) (simp_all add: or_raise_def db_kept_ret db_kept_raise)

lemma db_kept_first_or_raise [db_kept_intros]: "db_kept (first_or_raise xs e)"
  by (cases xs) (simp_all add: first_or_raise_def db_kept_ret db_kept_raise)

lemma db_kept_write_file [db_kept_intros]: "db_kept (write_file env file_name content)"
  by (simp add: db_kept_def write_file_def split: option.splits)

lemma db_kept_write_text [db_kept_intros]: "db_kept (write_text env file_name content)"
  by (simp add: db_kept_def write_text_def split: option.splits)

lemma db_kept_read_file [db_kept_intros]: "db_kept (read_file env file_name)"
  by (simp add: db_kept_def read_file_def split: option.splits)

lemma db_kept_do_request [db_kept_intros]: "db_kept (do_request env url)"
  by (cases "urlopen env url")
     (simp_all add: do_request_def db_kept_ret db_kept_raise split: option.splits)

lemma db_kept_save_page [db_kept_intros]:
  "db_kept (save_page env file_name title html show_exists_error)"
  by (simp add: db_kept_def save_page_eq write_text_def split: option.splits)

lemma db_kept_download_file [db_kept_intros]: "db_kept (download_file env url file_name)"
  by (cases "urlopen env url")
     (simp_all add: download_file_def db_kept_ret db_kept_raise db_kept_bind db_kept_write_file)


lemma db_kept_strip_anchor [db_kept_intros]: "db_kept (strip_anchor link refs)"
  unfolding strip_anchor_def Let_def by (intro db_kept_intros)

lemma db_kept_download_image [db_kept_intros]: "db_kept (download_image env img refs)"
  unfolding download_image_def Let_def by (intro db_kept_intros)

lemma db_kept_save_class_page [db_kept_intros]: "db_kept (save_class_page env module class_name)"
  unfolding save_class_page_def Let_def by (intro db_kept_intros)

lemma db_kept_parse_main_page [db_kept_intros]: "db_kept (parse_main_page env)"
  unfolding parse_main_page_def Let_def by (intro db_kept_intros)

lemma db_kept_prune_step [db_kept_intros]: "db_kept (prune_step env module_in_404 main_page_body)"
  unfolding prune_step_def by (intro db_kept_intros)

lemma db_kept_prune_main_page [db_kept_intros]: "db_kept (prune_main_page env modules_in_404)"
  unfolding prune_main_page_def Let_def by (intro db_kept_intros)

lemma db_kept_banner [db_kept_intros]: "db_kept banner"
  unfolding banner_def by (intro db_kept_intros)

subsection \<open>Runs that delete no file\<close>

lemma files_grow_ret [files_grow_intros]: "files_grow (ret x)"
  by (simp add: files_grow_def ret_def)

lemma files_grow_raise [files_grow_intros]: "files_grow (raise e)"
  by (simp add: files_grow_def raise_def)

lemma files_growD: "files_grow m \<Longrightarrow> dom (files s) \<subseteq> dom (files (snd (m s)))"
  unfolding files_grow_def by blast

lemma files_grow_bind [files_grow_intros]:
  assumes "files_grow m" and "\<And>x. files_grow (f x)"
  shows "files_grow (bind_run m f)"
  unfolding files_grow_def
proof
  fix s :: state
  obtain r s' where ms: "m s = (r, s')" by (cases "m s")
  from files_growD[OF assms(1), of s] ms
  have sub: "dom (files s) \<subseteq> dom (files s')" by simp
  show "dom (files s) \<subseteq> dom (files (snd (bind_run m f s)))"
  proof (cases r)
    case (Inl e)
    then show ?thesis using ms sub by (simp add: bind_run_def)
  next
    case (Inr x)
    from files_growD[OF assms(2)[of x], of s'] sub
    have "dom (files s) \<subseteq> dom (files (snd (f x s')))" by blast
    then show ?thesis using Inr ms by (simp add: bind_run_def)
  qed
qed

lemma files_grow_if [files_grow_intros]:
  "files_grow a \<Longrightarrow> files_grow b \<Longrightarrow> files_grow (if c then a else b)"
  by simp

lemma files_grow_case_option [files_grow_intros]:
  "files_grow a \<Longrightarrow> (\<And>y. files_grow (b y)) \<Longrightarrow> files_grow (case x of None \<Rightarrow> a | Some y \<Rightarrow> b y)"
  by (cases x) simp_all

lemma files_grow_for_each [files_grow_intros]:
  assumes "\<And>x a. files_grow (f x a)"
  shows "files_grow (for_each f xs acc)"
proof (induction xs arbitrary: acc)
  case Nil
  show ?case by (simp add: files_grow_ret)
next
  case (Cons x xs)
  show ?case using assms Cons by (simp add: files_grow_bind)
qed

lemma files_grow_print [files_grow_intros]: "files_grow (print line)"
  by (simp add: files_grow_def print_def)

lemma files_grow_or_raise [files_grow_intros]: "files_grow (or_raise x e)"
  by (cases x) (simp_all add: or_raise_def files_grow_ret files_grow_raise)

lemma files_grow_first_or_raise [files_grow_intros]: "files_grow (first_or_raise xs e)"
  by (cases xs) (simp_all add: first_or_raise_def files_grow_ret files_grow_raise)

lemma files_grow_write_file [files_grow_intros]: "files_grow (write_file env file_name content)"
  by (auto simp: files_grow_def write_file_def split: option.splits)

lemma files_grow_write_text [files_grow_intros]: "files_grow (write_text env file_name content)"
  by (auto simp: files_grow_def write_text_def split: option.splits)

lemma files_grow_read_file [files_grow_intros]: "files_grow (read_file env file_name)"
  by (simp add: files_grow_def read_file_def split: option.splits)

lemma files_grow_do_request [files_grow_intros]: "files_grow (do_request env url)"
  by (cases "urlopen env url")
     (simp_all add: do_request_def files_grow_ret files_grow_raise split: option.splits)

lemma files_grow_save_page [files_grow_intros]:
  "files_grow (save_page env file_name title html show_exists_error)"
  by (auto simp: files_grow_def save_page_eq write_text_def split: option.splits)

lemma files_grow_download_file [files_grow_intros]: "files_grow (download_file env url file_name)"
  by (cases "urlopen env url")
     (simp_all add: download_file_def files_grow_ret files_grow_raise files_grow_bind files_grow_write_file)

lemma files_grow_download_css [files_grow_intros]: "files_grow (download_css env)"
  unfolding download_css_def by (intro files_grow_intros)

lemma files_grow_strip_anchor [files_grow_intros]: "files_grow (strip_anchor link refs)"
  unfolding strip_anchor_def Let_def by (intro files_grow_intros)

lemma files_grow_download_image [files_grow_intros]: "files_grow (download_image env img refs)"
  unfolding download_image_def Let_def by (intro files_grow_intros)

lemma files_grow_save_class_page [files_grow_intros]: "files_grow (save_class_page env module class_name)"
  unfolding save_class_page_def Let_def by (intro files_grow_intros)

lemma files_grow_parse_main_page [files_grow_intros]: "files_grow (parse_main_page env)"
  unfolding parse_main_page_def Let_def by (intro files_grow_intros)

lemma files_grow_prune_step [files_grow_intros]: "files_grow (prune_step env module_in_404 main_page_body)"
  unfolding prune_step_def by (intro files_grow_intros)

lemma files_grow_prune_main_page [files_grow_intros]: "files_grow (prune_main_page env modules_in_404)"
  unfolding prune_main_page_def Let_def by (intro files_grow_intros)

lemma files_grow_banner [files_grow_intros]: "files_grow banner"
  unfolding banner_def by (intro files_grow_intros)

lemma files_grow_insert_entry [files_grow_intros]: "files_grow (insert_entry name entry_type path)"
  by (auto simp: files_grow_def insert_entry_def split: option.splits)

lemma files_grow_init_database [files_grow_intros]: "files_grow init_database"
  by (simp add: files_grow_def init_database_def)

lemma files_grow_parse_module_index_page [files_grow_intros]:
  "files_grow (parse_module_index_page env module)"
  unfolding parse_module_index_page_def Let_def by (intro files_grow_intros)

lemma files_grow_insert_method [files_grow_intros]:
  "files_grow (insert_method module class_name file_path method u)"
  unfolding insert_method_def Let_def by (intro files_grow_intros)

lemma files_grow_index_class_page [files_grow_intros]:
  "files_grow (index_class_page module class_name body)"
  unfolding index_class_page_def Let_def by (intro files_grow_intros)

lemma files_grow_parse_class_page [files_grow_intros]:
  "files_grow (parse_class_page env module class_name)"
  unfolding parse_class_page_def by (intro files_grow_intros)

lemma files_grow_class_step [files_grow_intros]: "files_grow (class_step env module_slug nb item u)"
  unfolding class_step_def by (intro files_grow_intros)

lemma files_grow_module_step [files_grow_intros]:
  "files_grow (module_step env module_tag modules_in_404)"
  unfolding module_step_def Let_def by (intro files_grow_intros)

lemma files_grow_crawl [files_grow_intros]: "files_grow (crawl env)"
  unfolding crawl_def by (intro files_grow_intros)


section \<open>Running the script again\<close>









section \<open>Modules that are not found\<close>

text \<open>
  A module whose index page is not found: the round of the loop over the modules prints
  two lines and appends the module to \<open>modules_in_404\<close>; the index and the files stay as
  they are.
\<close>

lemma module_step_not_found:
  assumes "tag_string module_tag = Some string"
    and "urlopen env (''https://doc-snapshots.qt.io/qtforpython/PySide2/''
           @ replace '' '' [] string @ ''/index.html'') = HTTPError code"
  shows "module_step env module_tag modules_in_404 s =
     (Inr (modules_in_404 @ [replace '' '' [] string]),
      s\<lparr>stdout := stdout s @ [''Indexing '' @ replace '' '' [] string,
          red ''  -- Page not found. Skip...'']\<rparr>)"
  using assms
  by (simp add: module_step_def parse_module_index_page_def do_request_def bind_run_def
      or_raise_def ret_def print_def Let_def)

text \<open>
  Claim C1 on a root page that lists \<open>Qt Xml Patterns\<close> before \<open>Qt Xml\<close>, when the module
  \<open>QtXml\<close> was not found: the last pass looks for the first link whose \<open>href\<close> contains
  \<open>QtXml\<close>, which is the link of the other module. That link is unwrapped and the link of
  the module that was not found stays.
\<close>

theorem prune_unwraps_sibling_link:
  "for_each
     (prune_step
        \<lparr>getcwd = ''/home/user'', urlopen = (\<lambda>url. HTTPError 404),
         parse = (\<lambda>markup. Some (NavigableString markup)), render = (\<lambda>t. []),
         re_search = (\<lambda>pattern s. contains s pattern), isdir = (\<lambda>file_name. False),
         open_w = (\<lambda>file_name. None), encodes = (\<lambda>content. True)\<rparr>)
     [''QtXml'']
     (Tag 0 ''[document]'' []
        [Tag 1 ''title'' [] [NavigableString ''Qt for Python''],
         Tag 2 ''div'' [(''class'', ''bodywrapper'')]
           [Tag 3 ''a'' [(''class'', ''reference external''),
                         (''href'', ''QtXmlPatterns-index.html'')]
              [NavigableString ''Qt Xml Patterns''],
            Tag 4 ''a'' [(''class'', ''reference external''), (''href'', ''QtXml-index.html'')]
              [NavigableString ''Qt Xml'']]])
     \<lparr>searchIndex = Some [], files = Map.empty, stdout = []\<rparr>
   = (Inr (Tag 0 ''[document]'' []
        [Tag 1 ''title'' [] [NavigableString ''Qt for Python''],
         Tag 2 ''div'' [(''class'', ''bodywrapper'')]
           [NavigableString ''Qt Xml Patterns'',
            Tag 4 ''a'' [(''class'', ''reference external''), (''href'', ''QtXml-index.html'')]
              [NavigableString ''Qt Xml'']]]),
      \<lparr>searchIndex = Some [], files = Map.empty, stdout = []\<rparr>)"
  by (simp add: prune_step_def bind_run_def or_raise_def ret_def find_first_def
      find_all_desc_def is_tag_def startswith_def modify_forest_def replaceWithChildren_def)

section \<open>The inheritance links\<close>

lemma event_idents_append: "event_idents (xs @ ys) = event_idents xs @ event_idents ys"
  by (induction xs rule: event_idents.induct) simp_all

lemma event_idents_events: "set (event_idents (events m)) \<subseteq> set (tag_ids m)"
proof (induction m)
  case (NavigableString s)
  show ?case by simp
next
  case (Tag i n as cs)
  have "set (event_idents (concat (map events cs))) \<subseteq> set (concat (map tag_ids cs))"
    using Tag by (induction cs) (auto simp: event_idents_append)
  then show ?case by (auto simp: event_idents_append)
qed

lemma event_idents_events_forest: "set (event_idents (events_forest ns)) \<subseteq> set (forest_ids ns)"
proof (induction ns)
  case Nil
  show ?case by (simp add: events_forest_def)
next
  case (Cons x xs)
  then show ?case using event_idents_events[of x]
    by (auto simp: events_forest_Cons forest_ids_Cons event_idents_append)
qed

lemma set_event_attr_other:
  "j \<notin> set (event_idents es) \<Longrightarrow> map (set_event_attr j k v) es = es"
  by (induction es rule: event_idents.induct) auto

lemma events_modify_set_attr_aux:
  assumes "\<And>c. c \<in> set cs \<Longrightarrow> distinct (tag_ids c) \<Longrightarrow>
      events_forest (modify j (\<lambda>t. [set_attr k v t]) c) = map (set_event_attr j k v) (events c)"
    and "distinct (forest_ids cs)"
  shows "events_forest (modify_forest j (\<lambda>t. [set_attr k v t]) cs) =
      map (set_event_attr j k v) (events_forest cs)"
  using assms
proof (induction cs)
  case Nil
  show ?case by (simp add: events_forest_def modify_forest_def)
next
  case (Cons c cs)
  have "distinct (tag_ids c)" "distinct (forest_ids cs)"
    using Cons.prems(2) by (simp_all add: forest_ids_Cons)
  then show ?case using Cons
    by (simp add: events_forest_append events_forest_Cons modify_forest_def)
qed

lemma events_modify_set_attr:
  "distinct (tag_ids m) \<Longrightarrow>
   events_forest (modify j (\<lambda>t. [set_attr k v t]) m) = map (set_event_attr j k v) (events m)"
proof (induction m)
  case (NavigableString s)
  show ?case by (simp add: events_forest_def)
next
  case (Tag i n as cs)
  have d: "distinct (forest_ids cs)" and i: "i \<notin> set (forest_ids cs)"
    using Tag.prems by (simp_all add: forest_ids_def)
  show ?case
  proof (cases "i = j")
    case True
    then have "j \<notin> set (event_idents (events_forest cs))"
      using i event_idents_events_forest[of cs] by blast
    then have "map (set_event_attr j k v) (events_forest cs) = events_forest cs"
      by (rule set_event_attr_other)
    then show ?thesis using True
      by (simp add: events_forest_def)
  next
    case False
    have "events_forest (modify_forest j (\<lambda>t. [set_attr k v t]) cs) =
        map (set_event_attr j k v) (events_forest cs)"
      using Tag.IH d by (intro events_modify_set_attr_aux) auto
    then show ?thesis using False
      by (simp add: events_forest_def modify_forest_def)
  qed
qed

lemma events_modify_forest_set_attr:
  "distinct (forest_ids cs) \<Longrightarrow>
   events_forest (modify_forest j (\<lambda>t. [set_attr k v t]) cs) =
     map (set_event_attr j k v) (events_forest cs)"
  using events_modify_set_attr by (intro events_modify_set_attr_aux) auto

lemma start_ids_set_event_attr: "start_ids (map (set_event_attr j k v) es) = start_ids es"
  by (induction es rule: start_ids.induct) auto

lemma strip_link_Tag:
  "strip_link link (Tag b n bs cs) =
     Tag b n bs (case get_attr ''href'' link of
        None \<Rightarrow> cs
      | Some href \<Rightarrow> modify_forest (ident link)
          (\<lambda>x. [set_attr ''href'' (hd (split_on CHR ''#'' href)) x]) cs)"
  by (simp add: strip_link_def split: option.splits)

lemma events_strip_link:
  "distinct (forest_ids cs) \<Longrightarrow>
   events_forest (contents (strip_link link (Tag b n bs cs))) =
     strip_events link (events_forest cs)"
  by (simp add: strip_link_Tag strip_events_def events_modify_forest_set_attr
      split: option.splits)

lemma start_ids_strip_events: "start_ids (strip_events link es) = start_ids es"
  by (simp add: strip_events_def start_ids_set_event_attr split: option.splits)

lemma fold_strip_link_Tag:
  "\<exists>cs'. fold strip_link ls (Tag b n bs cs) = Tag b n bs cs'"
proof (induction ls arbitrary: cs)
  case Nil
  show ?case by simp
next
  case (Cons l ls)
  show ?case using Cons[of "contents (strip_link l (Tag b n bs cs))"]
    by (simp add: strip_link_Tag)
qed

lemma events_fold_strip_link:
  "distinct (forest_ids cs) \<Longrightarrow>
   events_forest (contents (fold strip_link ls (Tag b n bs cs))) =
     fold strip_events ls (events_forest cs)"
proof (induction ls arbitrary: cs)
  case Nil
  show ?case by simp
next
  case (Cons l ls)
  let ?cs = "contents (strip_link l (Tag b n bs cs))"
  have t: "strip_link l (Tag b n bs cs) = Tag b n bs ?cs" by (simp add: strip_link_Tag)
  have e: "events_forest ?cs = strip_events l (events_forest cs)"
    using Cons.prems by (rule events_strip_link)
  have "forest_ids ?cs = forest_ids cs"
    using e start_ids_events_forest[of ?cs] start_ids_events_forest[of cs]
    by (simp add: start_ids_strip_events)
  then have "distinct (forest_ids ?cs)" using Cons.prems by simp
  from Cons.IH[OF this] show ?case using t e by simp
qed

lemma for_each_strip_anchor:
  "\<forall>l\<in>set ls. get_attr ''href'' l \<noteq> None \<Longrightarrow>
   for_each strip_anchor ls refs s =
     (Inr (fold strip_link ls (fst refs), fold strip_link ls (snd refs)), s)"
proof (induction ls arbitrary: refs)
  case Nil
  show ?case by (simp add: ret_def)
next
  case (Cons l ls)
  then obtain h where h: "get_attr ''href'' l = Some h" by auto
  have "strip_anchor l refs s = (Inr (strip_link l (fst refs), strip_link l (snd refs)), s)"
    using h
    by (simp add: strip_anchor_def strip_link_def bind_run_def or_raise_def ret_def Let_def)
  then show ?case using Cons by (simp add: bind_run_def)
qed

lemma strip_events_keeps:
  assumes "e \<in> set es" and "\<And>k v. set_event_attr (ident l) k v e = e"
  shows "e \<in> set (strip_events l es)"
proof (cases "get_attr ''href'' l")
  case None
  then show ?thesis using assms(1) by (simp add: strip_events_def)
next
  case (Some href)
  have "set_event_attr (ident l) ''href'' (hd (split_on CHR ''#'' href)) e
      \<in> set_event_attr (ident l) ''href'' (hd (split_on CHR ''#'' href)) ` set es"
    using assms(1) by (rule imageI)
  then show ?thesis using Some assms(2) by (simp add: strip_events_def)
qed

lemma fold_strip_events_other:
  "i \<notin> ident ` set ls \<Longrightarrow> StartTag i n as \<in> set es \<Longrightarrow>
   StartTag i n as \<in> set (fold strip_events ls es)"
proof (induction ls arbitrary: es)
  case Nil
  then show ?case by simp
next
  case (Cons l ls)
  have "set_event_attr (ident l) k v (StartTag i n as) = StartTag i n as" for k v
    using Cons.prems(1) by auto
  with Cons.prems(2) have "StartTag i n as \<in> set (strip_events l es)"
    by (rule strip_events_keeps)
  then show ?case using Cons by simp
qed

lemma fold_strip_events_link:
  assumes "distinct (map ident ls)" and "link \<in> set ls"
    and "get_attr ''href'' link = Some h"
    and "StartTag (ident link) n as \<in> set es"
  shows "StartTag (ident link) n (AList.update ''href'' (hd (split_on CHR ''#'' h)) as)
     \<in> set (fold strip_events ls es)"
  using assms
proof (induction ls arbitrary: es)
  case Nil
  then show ?case by simp
next
  case (Cons l ls)
  show ?case
  proof (cases "l = link")
    case True
    have "set_event_attr (ident link) ''href'' (hd (split_on CHR ''#'' h)) (StartTag (ident link) n as)
        = StartTag (ident link) n (AList.update ''href'' (hd (split_on CHR ''#'' h)) as)"
      by simp
    moreover have "set_event_attr (ident link) ''href'' (hd (split_on CHR ''#'' h))
          (StartTag (ident link) n as)
        \<in> set_event_attr (ident link) ''href'' (hd (split_on CHR ''#'' h)) ` set es"
      using Cons.prems(4) by (rule imageI)
    ultimately have "StartTag (ident link) n (AList.update ''href'' (hd (split_on CHR ''#'' h)) as)
        \<in> set (strip_events l es)"
      using True Cons.prems(3) by (simp add: strip_events_def)
    moreover have "ident link \<notin> ident ` set ls" using True Cons.prems(1) by auto
    ultimately show ?thesis using fold_strip_events_other by simp
  next
    case False
    then have in_ls: "link \<in> set ls" using Cons.prems(2) by simp
    then have "ident l \<noteq> ident link" using Cons.prems(1) by auto
    then have "set_event_attr (ident l) k v (StartTag (ident link) n as) = StartTag (ident link) n as"
      for k v by simp
    with Cons.prems(4) have "StartTag (ident link) n as \<in> set (strip_events l es)"
      by (rule strip_events_keeps)
    then show ?thesis using Cons.IH[OF _ in_ls Cons.prems(3)] Cons.prems(1) by simp
  qed
qed

lemma hd_split_on: "hd (split_on c s) = takeWhile (\<lambda>x. x \<noteq> c) s"
  by (induction s) (simp_all add: split_on_Cons del: split_on.simps(2))

lemma following_suffix: "following i cs = Some rest \<Longrightarrow> \<exists>pre. cs = pre @ rest"
proof (induction i cs rule: following.induct)
  case (1 i)
  then show ?case by simp
next
  case (2 i s cs)
  then obtain pre where "cs = pre @ rest" by auto
  then have "NavigableString s # cs = (NavigableString s # pre) @ rest" by simp
  then show ?case by blast
next
  case (3 i j n as ds cs)
  show ?case
  proof (cases "j = i")
    case True
    with 3 have "Tag j n as ds # cs = [Tag j n as ds] @ rest" by simp
    then show ?thesis by blast
  next
    case False
    with 3 obtain pre where "cs = pre @ rest" by auto
    then have "Tag j n as ds # cs = (Tag j n as ds # pre) @ rest" by simp
    then show ?thesis by blast
  qed
qed

lemma events_in_forest: "x \<in> set F \<Longrightarrow> set (events x) \<subseteq> set (events_forest F)"
  by (induction F) (auto simp: events_forest_Cons events_forest_Nil)

lemma tag_ids_in_forest: "x \<in> set F \<Longrightarrow> set (tag_ids x) \<subseteq> set (forest_ids F)"
  by (induction F) (auto simp: forest_ids_Cons forest_ids_Nil)

lemma next_siblings_events:
  "x \<in> set (next_siblings i t) \<Longrightarrow> set (events x) \<subseteq> set (events_forest (contents t))"
proof (induction t)
  case (NavigableString s)
  then show ?case by simp
next
  case (Tag j n as cs)
  show ?case
  proof (cases "following i cs")
    case (Some rest)
    then obtain pre where cs: "cs = pre @ rest" using following_suffix by blast
    from Some Tag.prems have "x \<in> set rest" by simp
    then have "set (events x) \<subseteq> set (events_forest rest)" by (rule events_in_forest)
    then show ?thesis using cs by (auto simp: events_forest_append)
  next
    case None
    with Tag.prems obtain c where c: "c \<in> set cs" "x \<in> set (next_siblings i c)" by auto
    from Tag.IH[OF c] have sub: "set (events x) \<subseteq> set (events_forest (contents c))" .
    have "set (events_forest (contents c)) \<subseteq> set (events c)"
      using c(2) by (cases c) (auto simp: events_forest_def)
    moreover have "set (events c) \<subseteq> set (events_forest cs)"
      using c(1) by (rule events_in_forest)
    ultimately show ?thesis using sub by simp
  qed
qed

lemma next_siblings_ids: "set (forest_ids (next_siblings i t)) \<subseteq> set (tag_ids t)"
proof (induction t)
  case (NavigableString s)
  show ?case by (simp add: forest_ids_Nil)
next
  case (Tag j n as cs)
  show ?case
  proof (cases "following i cs")
    case (Some rest)
    then obtain pre where cs: "cs = pre @ rest" using following_suffix by blast
    then show ?thesis using Some by (auto simp: tag_ids_Tag forest_ids_append simp del: tag_ids.simps)
  next
    case None
    have "set (forest_ids (concat (map (next_siblings i) cs))) \<subseteq> set (forest_ids cs)"
      using Tag.IH by (intro forest_ids_concat_map) auto
    then show ?thesis using None by (auto simp: tag_ids_Tag simp del: tag_ids.simps)
  qed
qed

lemma distinct_forest_ids_concat_map:
  assumes "distinct (forest_ids cs)"
    and "\<And>c. c \<in> set cs \<Longrightarrow> distinct (forest_ids (g c))"
    and "\<And>c. c \<in> set cs \<Longrightarrow> set (forest_ids (g c)) \<subseteq> set (tag_ids c)"
  shows "distinct (forest_ids (concat (map g cs)))"
  using assms
proof (induction cs)
  case Nil
  show ?case by (simp add: forest_ids_Nil)
next
  case (Cons c cs)
  have d: "distinct (forest_ids cs)" and disj: "set (tag_ids c) \<inter> set (forest_ids cs) = {}"
    using Cons.prems(1) by (simp_all add: forest_ids_Cons)
  have rest: "distinct (forest_ids (concat (map g cs)))"
    using Cons.IH[OF d] Cons.prems(2,3) by simp
  have sub: "set (forest_ids (concat (map g cs))) \<subseteq> set (forest_ids cs)"
    using Cons.prems(3) by (intro forest_ids_concat_map) simp
  have first: "distinct (forest_ids (g c))" "set (forest_ids (g c)) \<subseteq> set (tag_ids c)"
    using Cons.prems(2,3) by simp_all
  show ?case using rest sub first disj
    by (simp add: forest_ids_append) blast
qed

lemma next_siblings_distinct:
  "distinct (tag_ids t) \<Longrightarrow> distinct (forest_ids (next_siblings i t))"
proof (induction t)
  case (NavigableString s)
  show ?case by (simp add: forest_ids_Nil)
next
  case (Tag j n as cs)
  have d: "distinct (forest_ids cs)" using Tag.prems by (simp add: forest_ids_def)
  show ?case
  proof (cases "following i cs")
    case (Some rest)
    then obtain pre where cs: "cs = pre @ rest" using following_suffix by blast
    then show ?thesis using Some d by (simp add: forest_ids_append)
  next
    case None
    have "distinct (forest_ids (concat (map (next_siblings i) cs)))"
    proof (rule distinct_forest_ids_concat_map[OF d])
      fix c assume c: "c \<in> set cs"
      then have "set (tag_ids c) \<subseteq> set (forest_ids cs)" by (rule tag_ids_in_forest)
      have "distinct (tag_ids c)"
        using c d by (induction cs) (auto simp: forest_ids_Cons)
      then show "distinct (forest_ids (next_siblings i c))" using Tag.IH[OF c] by simp
      show "set (forest_ids (next_siblings i c)) \<subseteq> set (tag_ids c)"
        by (rule next_siblings_ids)
    qed
    then show ?thesis using None by simp
  qed
qed

lemma filter_is_tag_distinct:
  "distinct (forest_ids F) \<Longrightarrow> distinct (map ident (filter (is_tag n) F))"
proof (induction F)
  case Nil
  show ?case by simp
next
  case (Cons x F)
  have d: "distinct (forest_ids F)" using Cons.prems by (simp add: forest_ids_Cons)
  show ?case
  proof (cases x)
    case (NavigableString s)
    then show ?thesis using Cons.IH[OF d] by (simp add: is_tag_def)
  next
    case (Tag j m as cs)
    have "j \<notin> set (forest_ids F)" using Cons.prems Tag by (simp add: forest_ids_Cons)
    moreover have "ident y \<in> set (forest_ids F)" if "y \<in> set F" "is_tag n y" for y
      using tag_ids_in_forest[OF that(1)] that(2) by (cases y) (auto simp: is_tag_def)
    ultimately have "j \<notin> ident ` set (filter (is_tag n) F)" by auto
    then show ?thesis using Cons.IH[OF d] Tag by simp
  qed
qed

lemma inherited_links_distinct:
  "distinct (forest_ids cs) \<Longrightarrow> distinct (map ident (inherited_links (Tag b n bs cs)))"
proof -
  assume d: "distinct (forest_ids cs)"
  have "distinct (forest_ids (next_siblings i (Tag b n bs cs)))" for i
  proof (cases "following i cs")
    case (Some rest)
    then obtain pre where "cs = pre @ rest" using following_suffix by blast
    then show ?thesis using Some d by (simp add: forest_ids_append)
  next
    case None
    have "distinct (forest_ids (concat (map (next_siblings i) cs)))"
    proof (rule distinct_forest_ids_concat_map[OF d])
      fix c assume c: "c \<in> set cs"
      have "distinct (tag_ids c)"
        using c d by (induction cs) (auto simp: forest_ids_Cons)
      then show "distinct (forest_ids (next_siblings i c))" by (rule next_siblings_distinct)
      show "set (forest_ids (next_siblings i c)) \<subseteq> set (tag_ids c)"
        by (rule next_siblings_ids)
    qed
    then show ?thesis using None by simp
  qed
  then show ?thesis
    by (simp add: inherited_links_def filter_is_tag_distinct split: option.splits)
qed

lemma inherited_links_events:
  assumes "link \<in> set (inherited_links (Tag b n bs cs))"
  shows "StartTag (ident link) ''a'' (attrs link) \<in> set (events_forest cs)"
proof -
  have "\<exists>i. link \<in> set (next_siblings i (Tag b n bs cs)) \<and> is_tag ''a'' link"
  proof (cases "find_first (\<lambda>t. is_tag ''strong'' t \<and> tag_string t = Some ''Inherited by:'') cs")
    case None
    then show ?thesis using assms by (simp add: inherited_links_def)
  next
    case (Some st)
    then have "link \<in> set (filter (is_tag ''a'') (next_siblings (ident st) (Tag b n bs cs)))"
      using assms by (simp add: inherited_links_def)
    then have "link \<in> set (next_siblings (ident st) (Tag b n bs cs)) \<and> is_tag ''a'' link"
      by (simp del: next_siblings.simps)
    then show ?thesis by blast
  qed
  then obtain i where i: "link \<in> set (next_siblings i (Tag b n bs cs))"
    and a: "is_tag ''a'' link" by blast
  from a obtain j as ds where link: "link = Tag j ''a'' as ds"
    by (cases link) (auto simp: is_tag_def)
  have "set (events link) \<subseteq> set (events_forest (contents (Tag b n bs cs)))"
    using i by (rule next_siblings_events)
  then show ?thesis using link by auto
qed

text \<open>
  Claim C5. When every link of the \<open>Inherited by:\<close> group has an \<open>href\<close>, the loop over the
  group returns, and for each link of the group the page then holds the tag of that
  identity, an \<open>a\<close> with the attributes of the link but its \<open>href\<close> cut before the first
  \<open>#\<close>; no other tag of the page has that identity.
\<close>

theorem inherited_links_stripped:
  assumes "distinct (forest_ids cs)"
    and "\<forall>l\<in>set (inherited_links (Tag b n bs cs)). get_attr ''href'' l \<noteq> None"
    and "link \<in> set (inherited_links (Tag b n bs cs))"
    and "get_attr ''href'' link = Some h"
  shows "\<exists>document' body'.
      for_each strip_anchor (inherited_links (Tag b n bs cs)) (document, Tag b n bs cs) s
        = (Inr (document', body'), s)
      \<and> StartTag (ident link) ''a''
           (AList.update ''href'' (takeWhile (\<lambda>c. c \<noteq> CHR ''#'') h) (attrs link))
         \<in> set (events_forest (contents body'))
      \<and> distinct (start_ids (events_forest (contents body')))
      \<and> CHR ''#'' \<notin> set (takeWhile (\<lambda>c. c \<noteq> CHR ''#'') h)"
proof -
  let ?ls = "inherited_links (Tag b n bs cs)"
  let ?body = "fold strip_link ?ls (Tag b n bs cs)"
  have run: "for_each strip_anchor ?ls (document, Tag b n bs cs) s =
      (Inr (fold strip_link ?ls document, ?body), s)"
    using for_each_strip_anchor[OF assms(2), of "(document, Tag b n bs cs)" s] by simp
  have ev: "events_forest (contents ?body) = fold strip_events ?ls (events_forest cs)"
    using assms(1) by (rule events_fold_strip_link)
  have "StartTag (ident link) ''a'' (AList.update ''href'' (hd (split_on CHR ''#'' h)) (attrs link))
      \<in> set (fold strip_events ?ls (events_forest cs))"
    using inherited_links_distinct[OF assms(1)] assms(3,4) inherited_links_events[OF assms(3)]
    by (rule fold_strip_events_link)
  then have mem: "StartTag (ident link) ''a''
           (AList.update ''href'' (takeWhile (\<lambda>c. c \<noteq> CHR ''#'') h) (attrs link))
         \<in> set (events_forest (contents ?body))"
    using ev by (simp add: hd_split_on)
  have "start_ids (fold strip_events ls es) = start_ids es" for ls es
    by (induction ls arbitrary: es) (simp_all add: start_ids_strip_events)
  then have dist: "distinct (start_ids (events_forest (contents ?body)))"
    using ev assms(1) by (simp add: start_ids_events_forest)
  have "CHR ''#'' \<notin> set (takeWhile (\<lambda>c. c \<noteq> CHR ''#'') h)"
    using set_takeWhileD by fastforce
  with run mem dist show ?thesis by blast
qed

theorem inherited_links_stripped_witness:
  "inherited_links (Tag 1 ''div'' [(''class'', ''bodywrapper'')]
       [Tag 2 ''p'' []
          [Tag 3 ''strong'' [] [NavigableString ''Inherited by:''],
           NavigableString '' '',
           Tag 4 ''a'' [(''href'', ''QDialog.html#more'')] [NavigableString ''QDialog'']]])
     = [Tag 4 ''a'' [(''href'', ''QDialog.html#more'')] [NavigableString ''QDialog'']]
   \<and> (\<exists>document' body'.
        for_each strip_anchor
          [Tag 4 ''a'' [(''href'', ''QDialog.html#more'')] [NavigableString ''QDialog'']]
          (Tag 0 ''html'' [] [],
           Tag 1 ''div'' [(''class'', ''bodywrapper'')]
             [Tag 2 ''p'' []
                [Tag 3 ''strong'' [] [NavigableString ''Inherited by:''],
                 NavigableString '' '',
                 Tag 4 ''a'' [(''href'', ''QDialog.html#more'')] [NavigableString ''QDialog'']]])
          \<lparr>searchIndex = None, files = Map.empty, stdout = []\<rparr>
        = (Inr (document', body'), \<lparr>searchIndex = None, files = Map.empty, stdout = []\<rparr>)
      \<and> StartTag 4 ''a'' [(''href'', ''QDialog.html'')] \<in> set (events_forest (contents body'))
      \<and> distinct (start_ids (events_forest (contents body'))))"
proof -
  let ?link = "Tag 4 ''a'' [(''href'', ''QDialog.html#more'')] [NavigableString ''QDialog'']"
  let ?cs = "[Tag 2 ''p'' []
          [Tag 3 ''strong'' [] [NavigableString ''Inherited by:''], NavigableString '' '', ?link]]"
  let ?bs = "[(''class'', ''bodywrapper'')]"
  have ls: "inherited_links (Tag 1 ''div'' ?bs ?cs) = [?link]"
    by (simp add: inherited_links_def find_first_def find_all_desc_def is_tag_def)
  have d: "distinct (forest_ids ?cs)" by (simp add: forest_ids_def)
  have hrefs: "\<forall>l\<in>set (inherited_links (Tag 1 ''div'' ?bs ?cs)). get_attr ''href'' l \<noteq> None"
    unfolding ls by simp
  have mem: "?link \<in> set (inherited_links (Tag 1 ''div'' ?bs ?cs))"
    unfolding ls by simp
  have h: "get_attr ''href'' ?link = Some ''QDialog.html#more''" by simp
  from inherited_links_stripped[OF d hrefs mem h, of "Tag 0 ''html'' [] []"
      "\<lparr>searchIndex = None, files = Map.empty, stdout = []\<rparr>"]
  have "\<exists>document' body'.
        for_each strip_anchor [?link] (Tag 0 ''html'' [] [], Tag 1 ''div'' ?bs ?cs)
          \<lparr>searchIndex = None, files = Map.empty, stdout = []\<rparr>
        = (Inr (document', body'), \<lparr>searchIndex = None, files = Map.empty, stdout = []\<rparr>)
      \<and> StartTag 4 ''a'' [(''href'', ''QDialog.html'')] \<in> set (events_forest (contents body'))
      \<and> distinct (start_ids (events_forest (contents body')))"
    unfolding ls by simp
  with ls show ?thesis by (intro conjI)
qed

end
